theory Spec2Isabelle
  imports Main "HOL-Library.Char_ord" "HOL-Library.List_Lexorder" "HOL-Library.Option_ord"
begin

section \<open>The memory model\<close>

text \<open>
  \<^verbatim>\<open>str.hpp\<close> defines one class, \<^verbatim>\<open>Str\<close>, with two private members:
  \<^verbatim>\<open>const char* ptr\<close> and \<^verbatim>\<open>int* counter\<close>. Several \<^verbatim>\<open>Str\<close> objects may hold the same two
  pointers, and the copy assignment operator may be handed its own target as the source,
  so the embedding keeps an explicit store:
  \<^item> the \<^verbatim>\<open>Str\<close> objects themselves, by the location of the object (\<open>objs\<close>);
  \<^item> the arrays made by \<^verbatim>\<open>new char[n]\<close>, by address (\<open>chars\<close>);
  \<^item> the cells made by \<^verbatim>\<open>new int\<close>, by address (\<open>ints\<close>).
  A pointer is \<open>None\<close> for \<^verbatim>\<open>nullptr\<close> and \<open>Some a\<close> for the address \<open>a\<close>. A cell that
  \<^verbatim>\<open>new\<close> has made and nothing has written yet holds an indeterminate value, \<open>None\<close>.
  \<^verbatim>\<open>delete\<close> removes the allocation from its map. Addresses are handed out in
  increasing order and never reused.

  A byte is a \<^typ>\<open>char\<close> (eight bits; \<open>HOL-Library.Char_ord\<close> orders them by their
  unsigned value, which is the order \<^verbatim>\<open>strcmp\<close> uses). \<^verbatim>\<open>size_t\<close> is \<^typ>\<open>nat\<close>: a length
  that describes readable memory is below \<^verbatim>\<open>SIZE_MAX\<close>, so \<^verbatim>\<open>length + 1\<close> does not wrap.
  \<^verbatim>\<open>int\<close> is the 32-bit two's complement integer of the usual ABIs; arithmetic that
  leaves its range is undefined behaviour in C++ and an error of the model.

  Every operation returns \<open>error + result\<close>: \<open>Inl\<close> where the C++ has undefined
  behaviour, \<open>Inr\<close> otherwise.
\<close>

type_synonym addr = nat
type_synonym loc = nat

datatype error =
    NullPointer      \<comment> \<open>a null pointer handed to \<^verbatim>\<open>memcpy\<close> or \<^verbatim>\<open>atoi\<close>\<close>
  | InvalidAccess    \<comment> \<open>a read, write or delete outside a live allocation, or a read of an indeterminate cell\<close>
  | SignedOverflow   \<comment> \<open>\<^verbatim>\<open>int\<close> arithmetic out of range\<close>
  | NoObject         \<comment> \<open>a member function called where no \<^verbatim>\<open>Str\<close> object lives\<close>
  | Unrepresentable  \<comment> \<open>\<^verbatim>\<open>atoi\<close> on a number that no \<^verbatim>\<open>int\<close> holds\<close>

record Str =
  ptr :: "addr option"
  counter :: "addr option"

record state =
  objs :: "loc \<rightharpoonup> Str"
  chars :: "addr \<rightharpoonup> char option list"
  ints :: "addr \<rightharpoonup> int option"
  next_addr :: addr

definition INT_MAX :: int where
  "INT_MAX = 2147483647"

definition INT_MIN :: int where
  "INT_MIN = - 2147483648"

definition NUL :: char where
  "NUL = CHR 0x00"

definition init :: state where
  "init = \<lparr>objs = Map.empty, chars = Map.empty, ints = Map.empty, next_addr = 0\<rparr>"

definition and_then :: "error + 'a \<Rightarrow> ('a \<Rightarrow> error + 'b) \<Rightarrow> error + 'b" where
  "and_then m f = (case m of Inl e \<Rightarrow> Inl e | Inr x \<Rightarrow> f x)"

subsection \<open>Primitive accesses\<close>

definition get_obj :: "loc \<Rightarrow> state \<Rightarrow> error + Str" where
  "get_obj l st = (case objs st l of None \<Rightarrow> Inl NoObject | Some s \<Rightarrow> Inr s)"

definition put_obj :: "loc \<Rightarrow> Str \<Rightarrow> state \<Rightarrow> state" where
  "put_obj l s st = st\<lparr>objs := (objs st)(l \<mapsto> s)\<rparr>"

definition end_obj :: "loc \<Rightarrow> state \<Rightarrow> state" where
  "end_obj l st = st\<lparr>objs := (objs st)(l := None)\<rparr>"

definition new_int :: "state \<Rightarrow> addr \<times> state" where
  "new_int st =
     (next_addr st, st\<lparr>ints := (ints st)(next_addr st \<mapsto> None), next_addr := Suc (next_addr st)\<rparr>)"

definition new_chars :: "nat \<Rightarrow> state \<Rightarrow> addr \<times> state" where
  "new_chars n st =
     (next_addr st,
      st\<lparr>chars := (chars st)(next_addr st \<mapsto> replicate n None), next_addr := Suc (next_addr st)\<rparr>)"

definition load_int :: "addr \<Rightarrow> state \<Rightarrow> error + int" where
  "load_int a st = (case ints st a of Some (Some v) \<Rightarrow> Inr v | _ \<Rightarrow> Inl InvalidAccess)"

definition store_int :: "addr \<Rightarrow> int \<Rightarrow> state \<Rightarrow> error + state" where
  "store_int a v st =
     (case ints st a of
        None \<Rightarrow> Inl InvalidAccess
      | Some _ \<Rightarrow> Inr (st\<lparr>ints := (ints st)(a \<mapsto> Some v)\<rparr>))"

definition store_char :: "addr \<Rightarrow> nat \<Rightarrow> char \<Rightarrow> state \<Rightarrow> error + state" where
  "store_char a i c st =
     (case chars st a of
        None \<Rightarrow> Inl InvalidAccess
      | Some cells \<Rightarrow>
          if i < length cells then Inr (st\<lparr>chars := (chars st)(a \<mapsto> cells[i := Some c])\<rparr>)
          else Inl InvalidAccess)"

text \<open>
  \<^verbatim>\<open>memcpy(dst, src, n)\<close>. The source is memory of the caller: \<open>None\<close> for a null
  pointer, \<open>Some bs\<close> for a pointer to the readable bytes \<open>bs\<close>.
\<close>

definition memcpy :: "addr \<Rightarrow> string option \<Rightarrow> nat \<Rightarrow> state \<Rightarrow> error + state" where
  "memcpy dst src n st =
     (case src of
        None \<Rightarrow> Inl NullPointer
      | Some bs \<Rightarrow>
          (case chars st dst of
             None \<Rightarrow> Inl InvalidAccess
           | Some cells \<Rightarrow>
               if n \<le> length bs \<and> n \<le> length cells
               then Inr (st\<lparr>chars := (chars st)(dst \<mapsto> map Some (take n bs) @ drop n cells)\<rparr>)
               else Inl InvalidAccess))"

text \<open>\<^verbatim>\<open>delete[] p\<close> and \<^verbatim>\<open>delete p\<close>; deleting a null pointer does nothing.\<close>

definition delete_chars :: "addr option \<Rightarrow> state \<Rightarrow> error + state" where
  "delete_chars p st =
     (case p of
        None \<Rightarrow> Inr st
      | Some a \<Rightarrow>
          (case chars st a of
             None \<Rightarrow> Inl InvalidAccess
           | Some _ \<Rightarrow> Inr (st\<lparr>chars := (chars st)(a := None)\<rparr>)))"

definition delete_int :: "addr \<Rightarrow> state \<Rightarrow> error + state" where
  "delete_int a st =
     (case ints st a of
        None \<Rightarrow> Inl InvalidAccess
      | Some _ \<Rightarrow> Inr (st\<lparr>ints := (ints st)(a := None)\<rparr>))"

text \<open>\<^verbatim>\<open>(*counter)++\<close> and \<^verbatim>\<open>(*counter)--\<close>.\<close>

definition incr :: "addr \<Rightarrow> state \<Rightarrow> error + state" where
  "incr a st =
     and_then (load_int a st)
       (\<lambda>v. if v = INT_MAX then Inl SignedOverflow else store_int a (v + 1) st)"

definition decr :: "addr \<Rightarrow> state \<Rightarrow> error + state" where
  "decr a st =
     and_then (load_int a st)
       (\<lambda>v. if v = INT_MIN then Inl SignedOverflow else store_int a (v - 1) st)"

section \<open>The class \<^verbatim>\<open>Str\<close>\<close>

subsection \<open>Constructors, assignment, destructor\<close>

text \<open>\<^verbatim>\<open>Str() : ptr(nullptr), counter(nullptr) {}\<close>\<close>

definition Str_default :: "loc \<Rightarrow> state \<Rightarrow> error + state" where
  "Str_default this st = Inr (put_obj this \<lparr>ptr = None, counter = None\<rparr> st)"

text \<open>
  \<^verbatim>\<open>Str(const char* str, size_t length) : counter(new int)\<close>: the counter cell is allocated
  first, then the array of \<^verbatim>\<open>length + 1\<close> bytes; the content is copied, the terminator
  written, and last \<^verbatim>\<open>*counter = 1\<close>.
\<close>

definition Str_from :: "loc \<Rightarrow> string option \<Rightarrow> nat \<Rightarrow> state \<Rightarrow> error + state" where
  "Str_from this str len st =
     (let (c, st1) = new_int st;
          (strin, st2) = new_chars (len + 1) st1
      in and_then (memcpy strin str len st2) (\<lambda>st3.
         and_then (store_char strin len NUL st3) (\<lambda>st4.
         store_int c 1 (put_obj this \<lparr>ptr = Some strin, counter = Some c\<rparr> st4))))"

text \<open>
  \<^verbatim>\<open>Str(const std::string& str) : Str(str.c_str(), str.size()) {}\<close>: \<^verbatim>\<open>c_str()\<close> points to
  the characters of the string, which a zero byte follows.
\<close>

definition Str_of_string :: "loc \<Rightarrow> string \<Rightarrow> state \<Rightarrow> error + state" where
  "Str_of_string this str st = Str_from this (Some (str @ [NUL])) (length str) st"

text \<open>
  \<^verbatim>\<open>Str(const Str& other) : ptr(other.ptr), counter(other.counter)\<close>, then
  \<^verbatim>\<open>if (counter != nullptr) (*counter)++\<close>.
\<close>

definition Str_copy :: "loc \<Rightarrow> loc \<Rightarrow> state \<Rightarrow> error + state" where
  "Str_copy this other st =
     and_then (get_obj other st) (\<lambda>oth.
       let st1 = put_obj this \<lparr>ptr = ptr oth, counter = counter oth\<rparr> st
       in (case counter oth of None \<Rightarrow> Inr st1 | Some c \<Rightarrow> incr c st1))"

text \<open>
  \<^verbatim>\<open>Str& operator=(const Str& other)\<close>. Each statement reads the objects from the store
  as it is at that point, so the model is also right when \<open>this\<close> and \<open>other\<close> are the same
  object. The operator contains no \<^verbatim>\<open>delete\<close>.
\<close>

definition Str_assign :: "loc \<Rightarrow> loc \<Rightarrow> state \<Rightarrow> error + state" where
  "Str_assign this other st =
     and_then (get_obj this st) (\<lambda>t0.
     and_then (case counter t0 of None \<Rightarrow> Inr st | Some c \<Rightarrow> decr c st) (\<lambda>st1.
     and_then (get_obj other st1) (\<lambda>o1.
     and_then (get_obj this st1) (\<lambda>t1.
       let st2 = put_obj this (t1\<lparr>ptr := ptr o1\<rparr>) st1 in
     and_then (get_obj other st2) (\<lambda>o2.
     and_then (get_obj this st2) (\<lambda>t2.
       let st3 = put_obj this (t2\<lparr>counter := counter o2\<rparr>) st2 in
     and_then (get_obj this st3) (\<lambda>t3.
       case counter t3 of None \<Rightarrow> Inr st3 | Some c \<Rightarrow> incr c st3)))))))"

text \<open>
  \<^verbatim>\<open>~Str()\<close>: nothing for a null counter; otherwise decrement, and at zero
  \<^verbatim>\<open>delete[] ptr; delete counter\<close>. The object's lifetime ends with the call.
\<close>

definition Str_dtor :: "loc \<Rightarrow> state \<Rightarrow> error + state" where
  "Str_dtor this st =
     and_then (get_obj this st) (\<lambda>t.
       case counter t of
         None \<Rightarrow> Inr (end_obj this st)
       | Some c \<Rightarrow>
           and_then (decr c st) (\<lambda>st1.
           and_then (load_int c st1) (\<lambda>v.
             if v = 0
             then and_then (delete_chars (ptr t) st1) (\<lambda>st2.
                  and_then (delete_int c st2) (\<lambda>st3. Inr (end_obj this st3)))
             else Inr (end_obj this st1))))"

subsection \<open>Observers\<close>

text \<open>\<^verbatim>\<open>int ref_count() const\<close>\<close>

definition ref_count :: "loc \<Rightarrow> state \<Rightarrow> error + int" where
  "ref_count this st =
     and_then (get_obj this st) (\<lambda>t.
       case counter t of None \<Rightarrow> Inr 0 | Some c \<Rightarrow> load_int c st)"

text \<open>\<^verbatim>\<open>const char* c_str() const { return ptr; }\<close>\<close>

definition c_str :: "loc \<Rightarrow> state \<Rightarrow> error + addr option" where
  "c_str this st = and_then (get_obj this st) (\<lambda>t. Inr (ptr t))"

text \<open>\<^verbatim>\<open>bool valid() const { return counter == nullptr; }\<close>\<close>

definition valid :: "loc \<Rightarrow> state \<Rightarrow> error + bool" where
  "valid this st = and_then (get_obj this st) (\<lambda>t. Inr (counter t = None))"

subsection \<open>Library functions the class calls\<close>

definition deref_chars :: "addr option \<Rightarrow> state \<Rightarrow> error + char option list" where
  "deref_chars p st =
     (case p of
        None \<Rightarrow> Inl NullPointer
      | Some a \<Rightarrow> (case chars st a of None \<Rightarrow> Inl InvalidAccess | Some cells \<Rightarrow> Inr cells))"

text \<open>
  Modelled from the spec: \<^verbatim>\<open>strcmp\<close> is the C library's function and not part of the
  repository. The spec describes it as a lexicographic, zero-terminator-aware byte
  comparison; the model is the C standard's loop over the two arrays: the bytes are
  compared as \<^verbatim>\<open>unsigned char\<close>, the first pair that differs decides the sign of the
  result, and a zero byte reached in both ends the comparison with 0. Reading past the
  end of an array, or an indeterminate byte, is an error.
\<close>

fun strcmp :: "char option list \<Rightarrow> char option list \<Rightarrow> error + int" where
  "strcmp (Some a # as) (Some b # bs) =
     (if a \<noteq> b then Inr (int (of_char a) - int (of_char b))
      else if a = NUL then Inr 0
      else strcmp as bs)"
| "strcmp _ _ = Inl InvalidAccess"

definition strcmp_at :: "addr option \<Rightarrow> addr option \<Rightarrow> state \<Rightarrow> error + int" where
  "strcmp_at p1 p2 st =
     and_then (deref_chars p1 st) (\<lambda>c1.
     and_then (deref_chars p2 st) (\<lambda>c2. strcmp c1 c2))"

text \<open>
  Modelled from the spec: the stream inserter for \<^verbatim>\<open>const char*\<close> is the C++ library's
  and not part of the repository. The spec has it produce the buffer's content, a
  sentinel-terminated sequence, as written output; by the C++ standard it writes the
  characters before the first zero byte. The stream is the sequence of characters
  written to it so far, in its default formatting state (no field width).
\<close>

fun read_cstr :: "char option list \<Rightarrow> error + string" where
  "read_cstr (Some c # cs) =
     (if c = NUL then Inr [] else and_then (read_cstr cs) (\<lambda>r. Inr (c # r)))"
| "read_cstr _ = Inl InvalidAccess"

definition write_cstr :: "string \<Rightarrow> addr option \<Rightarrow> state \<Rightarrow> error + string" where
  "write_cstr os p st =
     and_then (deref_chars p st) (\<lambda>cells.
     and_then (read_cstr cells) (\<lambda>txt. Inr (os @ txt)))"

text \<open>
  Modelled from the spec: \<^verbatim>\<open>std::atoi\<close> is the C library's function and not part of the
  repository. The spec: leading white space is skipped, an optional sign is read, then
  decimal digits up to the first character that is not a digit; no digits give 0. The
  model is that loop over the array (white space and digits of the C locale). By the C
  standard the behaviour is undefined when the number does not fit an \<^verbatim>\<open>int\<close>.
\<close>

definition isspace :: "char \<Rightarrow> bool" where
  "isspace c = (c = CHR '' '' \<or> (9 \<le> (of_char c :: nat) \<and> (of_char c :: nat) \<le> 13))"

definition isdigit :: "char \<Rightarrow> bool" where
  "isdigit c = (48 \<le> (of_char c :: nat) \<and> (of_char c :: nat) \<le> 57)"

definition digit_val :: "char \<Rightarrow> int" where
  "digit_val c = int (of_char c) - 48"

fun atoi_digits :: "int \<Rightarrow> char option list \<Rightarrow> error + int" where
  "atoi_digits acc (Some c # cs) =
     (if isdigit c then atoi_digits (10 * acc + digit_val c) cs else Inr acc)"
| "atoi_digits acc _ = Inl InvalidAccess"

fun atoi_sign :: "char option list \<Rightarrow> error + int" where
  "atoi_sign (Some c # cs) =
     (if c = CHR ''-'' then and_then (atoi_digits 0 cs) (\<lambda>v. Inr (- v))
      else if c = CHR ''+'' then atoi_digits 0 cs
      else atoi_digits 0 (Some c # cs))"
| "atoi_sign _ = Inl InvalidAccess"

fun atoi_skip :: "char option list \<Rightarrow> error + int" where
  "atoi_skip (Some c # cs) = (if isspace c then atoi_skip cs else atoi_sign (Some c # cs))"
| "atoi_skip _ = Inl InvalidAccess"

definition atoi :: "char option list \<Rightarrow> error + int" where
  "atoi cells =
     and_then (atoi_skip cells)
       (\<lambda>v. if INT_MIN \<le> v \<and> v \<le> INT_MAX then Inr v else Inl Unrepresentable)"

subsection \<open>Output, comparisons, parsing\<close>

text \<open>\<^verbatim>\<open>operator<<\<close>: \<^verbatim>\<open>if (s.ptr != nullptr) os << s.ptr; return os;\<close>\<close>

definition op_shl :: "string \<Rightarrow> loc \<Rightarrow> state \<Rightarrow> error + string" where
  "op_shl os s st =
     and_then (get_obj s st) (\<lambda>x.
       if ptr x \<noteq> None then write_cstr os (ptr x) st else Inr os)"

text \<open>\<^verbatim>\<open>operator==\<close> and \<^verbatim>\<open>operator!=\<close>\<close>

definition op_eq :: "loc \<Rightarrow> loc \<Rightarrow> state \<Rightarrow> error + bool" where
  "op_eq s1 s2 st =
     and_then (get_obj s1 st) (\<lambda>x1.
     and_then (get_obj s2 st) (\<lambda>x2.
       if ptr x1 = ptr x2 then Inr True
       else if ptr x1 = None \<or> ptr x2 = None then Inr False
       else and_then (strcmp_at (ptr x1) (ptr x2) st) (\<lambda>r. Inr (r = 0))))"

definition op_ne :: "loc \<Rightarrow> loc \<Rightarrow> state \<Rightarrow> error + bool" where
  "op_ne s1 s2 st =
     and_then (get_obj s1 st) (\<lambda>x1.
     and_then (get_obj s2 st) (\<lambda>x2.
       if ptr x1 = ptr x2 then Inr False
       else if ptr x1 = None \<or> ptr x2 = None then Inr True
       else and_then (strcmp_at (ptr x1) (ptr x2) st) (\<lambda>r. Inr (r \<noteq> 0))))"

text \<open>\<^verbatim>\<open>operator<\<close>, \<^verbatim>\<open>operator>\<close>, \<^verbatim>\<open>operator<=\<close>, \<^verbatim>\<open>operator>=\<close>\<close>

definition op_lt :: "loc \<Rightarrow> loc \<Rightarrow> state \<Rightarrow> error + bool" where
  "op_lt s1 s2 st =
     and_then (get_obj s1 st) (\<lambda>x1.
     and_then (get_obj s2 st) (\<lambda>x2.
       if ptr x1 = None \<and> ptr x2 = None then Inr False
       else if ptr x1 = None then Inr True
       else if ptr x2 = None then Inr False
       else and_then (strcmp_at (ptr x1) (ptr x2) st) (\<lambda>r. Inr (r < 0))))"

definition op_gt :: "loc \<Rightarrow> loc \<Rightarrow> state \<Rightarrow> error + bool" where
  "op_gt s1 s2 st =
     and_then (get_obj s1 st) (\<lambda>x1.
     and_then (get_obj s2 st) (\<lambda>x2.
       if ptr x1 = None \<and> ptr x2 = None then Inr False
       else if ptr x1 = None then Inr False
       else if ptr x2 = None then Inr True
       else and_then (strcmp_at (ptr x1) (ptr x2) st) (\<lambda>r. Inr (r > 0))))"

definition op_le :: "loc \<Rightarrow> loc \<Rightarrow> state \<Rightarrow> error + bool" where
  "op_le s1 s2 st =
     and_then (get_obj s1 st) (\<lambda>x1.
     and_then (get_obj s2 st) (\<lambda>x2.
       if ptr x1 = None \<and> ptr x2 = None then Inr True
       else if ptr x1 = None then Inr True
       else if ptr x2 = None then Inr False
       else and_then (strcmp_at (ptr x1) (ptr x2) st) (\<lambda>r. Inr (r \<le> 0))))"

definition op_ge :: "loc \<Rightarrow> loc \<Rightarrow> state \<Rightarrow> error + bool" where
  "op_ge s1 s2 st =
     and_then (get_obj s1 st) (\<lambda>x1.
     and_then (get_obj s2 st) (\<lambda>x2.
       if ptr x1 = None \<and> ptr x2 = None then Inr True
       else if ptr x1 = None then Inr False
       else if ptr x2 = None then Inr True
       else and_then (strcmp_at (ptr x1) (ptr x2) st) (\<lambda>r. Inr (r \<ge> 0))))"

text \<open>\<^verbatim>\<open>int parse_to_int() const { return std::atoi(ptr); }\<close>\<close>

definition parse_to_int :: "loc \<Rightarrow> state \<Rightarrow> error + int" where
  "parse_to_int this st =
     and_then (get_obj this st) (\<lambda>t. and_then (deref_chars (ptr t) st) atoi)"

section \<open>Client programs\<close>

text \<open>
  A client of the class declares, copies, assigns and destroys \<^verbatim>\<open>Str\<close> objects. A program
  is a list of such statements, run from left to right; it stops at the first error.
\<close>

datatype stmt =
    Default loc                      \<comment> \<open>\<^verbatim>\<open>Str h;\<close>\<close>
  | From loc "string option" nat     \<comment> \<open>\<^verbatim>\<open>Str h(str, length);\<close>\<close>
  | Copy loc loc                     \<comment> \<open>\<^verbatim>\<open>Str h(other);\<close>\<close>
  | Assign loc loc                   \<comment> \<open>\<^verbatim>\<open>h = other;\<close>\<close>
  | Destroy loc                      \<comment> \<open>the end of \<open>h\<close>'s lifetime\<close>

fun exec :: "stmt \<Rightarrow> state \<Rightarrow> error + state" where
  "exec (Default h) st = Str_default h st"
| "exec (From h str len) st = Str_from h str len st"
| "exec (Copy h other) st = Str_copy h other st"
| "exec (Assign h other) st = Str_assign h other st"
| "exec (Destroy h) st = Str_dtor h st"

fun run :: "stmt list \<Rightarrow> state \<Rightarrow> error + state" where
  "run [] st = Inr st"
| "run (c # cs) st = and_then (exec c st) (run cs)"

section \<open>Notions of the specification\<close>

text \<open>
  The spec's two states of a handle. \<open>holds st h None\<close>: the object at \<open>h\<close> is
  Uninitialized (no buffer). \<open>holds st h (Some s)\<close>: it is Initialized and its buffer is
  the content \<open>s\<close> followed by the terminator.
\<close>

definition holds :: "state \<Rightarrow> loc \<Rightarrow> string option \<Rightarrow> bool" where
  "holds st h v =
     (case objs st h of
        None \<Rightarrow> False
      | Some x \<Rightarrow>
          (case v of
             None \<Rightarrow> ptr x = None
           | Some s \<Rightarrow>
               (case ptr x of
                  None \<Rightarrow> False
                | Some a \<Rightarrow> chars st a = Some (map Some s @ [Some NUL]))))"

text \<open>The content up to its first zero byte: what a C string function sees of it.\<close>

definition c_string :: "string \<Rightarrow> string" where
  "c_string s = takeWhile (\<lambda>c. c \<noteq> NUL) s"

text \<open>
  The key the comparison operators order handles by: nothing for an Uninitialized
  handle, the C string of the content otherwise. \<open>HOL-Library.Option_ord\<close> puts \<open>None\<close>
  strictly below every \<open>Some\<close>, \<open>HOL-Library.List_Lexorder\<close> orders lists
  lexicographically and \<open>HOL-Library.Char_ord\<close> orders bytes by their unsigned value.
\<close>

definition key :: "string option \<Rightarrow> string option" where
  "key v = map_option c_string v"

text \<open>
  The spec's reading of a decimal integer: skip the leading white space, take an
  optional sign, take the digits that follow up to the first character that is not a
  digit (\<open>digits\<close>); the value of no digits is 0.
\<close>

definition decimal :: "string \<Rightarrow> int" where
  "decimal ds = foldl (\<lambda>acc c. 10 * acc + digit_val c) 0 ds"

definition negative :: "string \<Rightarrow> bool" where
  "negative t = (case t of [] \<Rightarrow> False | c # r \<Rightarrow> c = CHR ''-'')"

definition unsigned_part :: "string \<Rightarrow> string" where
  "unsigned_part t =
     (case t of [] \<Rightarrow> [] | c # r \<Rightarrow> if c = CHR ''-'' \<or> c = CHR ''+'' then r else t)"

definition digits :: "string \<Rightarrow> string" where
  "digits s = takeWhile isdigit (unsigned_part (dropWhile isspace s))"

definition parse_spec :: "string \<Rightarrow> int" where
  "parse_spec s =
     (if negative (dropWhile isspace s) then - decimal (digits s) else decimal (digits s))"

text \<open>
  Two invariants of the states a program reaches. \<open>paired\<close> is the spec's I1: an object
  has a buffer exactly when it has a counter. \<open>fresh_above\<close>: nothing is allocated at or
  above the next address to be handed out.
\<close>

definition paired :: "state \<Rightarrow> bool" where
  "paired st = (\<forall>h x. objs st h = Some x \<longrightarrow> (ptr x = None) = (counter x = None))"

definition fresh_above :: "state \<Rightarrow> bool" where
  "fresh_above st = (\<forall>a. next_addr st \<le> a \<longrightarrow> chars st a = None \<and> ints st a = None)"

text \<open>
  The invariant behind the spec's I3. \<open>sharers m c\<close> are the objects whose counter is the
  cell \<open>c\<close>. A counter is \<open>counted\<close> when it holds a value that is at least the number of
  its sharers (more when an object was overwritten without being destroyed). A handle is
  in order when it is Uninitialized, or its buffer is the array allocated right after its
  counter, that array holds some content and a terminator, and the counter is counted. A
  state is \<open>sound\<close> when it has finitely many objects, all of them in order.
\<close>

definition sharers :: "(loc \<rightharpoonup> Str) \<Rightarrow> addr \<Rightarrow> loc set" where
  "sharers m c = {h. \<exists>x. m h = Some x \<and> counter x = Some c}"

definition counted :: "state \<Rightarrow> addr \<Rightarrow> bool" where
  "counted st c =
     (\<exists>v. ints st c = Some (Some v) \<and> int (card (sharers (objs st) c)) \<le> v)"

definition handle_ok :: "state \<Rightarrow> Str \<Rightarrow> bool" where
  "handle_ok st x =
     (case counter x of
        None \<Rightarrow> ptr x = None
      | Some c \<Rightarrow>
          ptr x = Some (Suc c) \<and> Suc c < next_addr st \<and>
          (\<exists>s. chars st (Suc c) = Some (map Some s @ [Some NUL])) \<and> counted st c)"

definition sound :: "state \<Rightarrow> bool" where
  "sound st =
     (finite (dom (objs st)) \<and> fresh_above st \<and>
      (\<forall>h x. objs st h = Some x \<longrightarrow> handle_ok st x))"


section \<open>What each operation does to the store\<close>

lemma drop_fresh_cells: "drop n (x # replicate n x) = [x]"
  by (induction n) simp_all

lemma Str_from_Inr:
  "Str_from h str len st = Inr st1 \<longleftrightarrow>
     (\<exists>bs. str = Some bs \<and> len \<le> length bs \<and>
        st1 = st\<lparr>objs := (objs st)(h \<mapsto> \<lparr>ptr = Some (Suc (next_addr st)), counter = Some (next_addr st)\<rparr>),
                 chars := (chars st)(Suc (next_addr st) \<mapsto> map Some (take len bs) @ [Some NUL]),
                 ints := (ints st)(next_addr st \<mapsto> Some 1),
                 next_addr := Suc (Suc (next_addr st))\<rparr>)"
  by (cases str)
     (auto simp: Str_from_def new_int_def new_chars_def memcpy_def store_char_def
        store_int_def put_obj_def and_then_def list_update_append drop_fresh_cells)

lemma assign_alias:
  assumes "objs st a = Some s" "objs st b = Some s" "counter s = Some c"
    "ints st c = Some (Some v)" "INT_MIN < v" "v \<le> INT_MAX"
  shows "Str_assign a b st = Inr st"
proof -
  have s: "s\<lparr>ptr := ptr s\<rparr> = s" "s\<lparr>counter := Some c\<rparr> = s"
    using assms(3) by (cases s; simp)+
  have o: "(objs st)(a \<mapsto> s) = objs st" and i: "(ints st)(c \<mapsto> Some v) = ints st"
    using assms by auto
  show ?thesis
    using assms
    by (cases "b = a")
       (simp_all add: Str_assign_def get_obj_def put_obj_def and_then_def decr_def incr_def
          load_int_def store_int_def Let_def s o i)
qed

lemma ref_count_shared:
  "objs st a = Some s \<Longrightarrow> counter s = Some c \<Longrightarrow> ints st c = Some (Some v) \<Longrightarrow>
   ref_count a st = Inr v"
  by (simp add: ref_count_def get_obj_def and_then_def load_int_def)

lemma copy_shared:
  assumes "objs st a = Some s" "counter s = Some c" "ints st c = Some (Some v)" "v < INT_MAX"
  shows "Str_copy b a st = Inr (st\<lparr>objs := (objs st)(b \<mapsto> s), ints := (ints st)(c \<mapsto> Some (v + 1))\<rparr>)"
proof -
  have eq: "\<lparr>ptr = ptr s, counter = Some c\<rparr> = s"
    using assms(2) by (cases s) simp
  show ?thesis
    using assms
    by (simp add: Str_copy_def get_obj_def put_obj_def and_then_def incr_def load_int_def
        store_int_def eq)
qed

lemma dtor_shared:
  assumes "objs st a = Some s" "counter s = Some c" "ints st c = Some (Some v)"
    "INT_MIN < v" "v \<noteq> 1"
  shows "Str_dtor a st = Inr (st\<lparr>objs := (objs st)(a := None), ints := (ints st)(c \<mapsto> Some (v - 1))\<rparr>)"
  using assms
  by (simp add: Str_dtor_def get_obj_def end_obj_def and_then_def decr_def load_int_def
      store_int_def)

lemma dtor_last:
  assumes "objs st a = Some s" "counter s = Some c" "ints st c = Some (Some 1)"
    "ptr s = Some p" "chars st p = Some cells"
  shows "Str_dtor a st = Inr (st\<lparr>objs := (objs st)(a := None), chars := (chars st)(p := None),
            ints := (ints st)(c := None)\<rparr>)"
  using assms
  by (simp add: Str_dtor_def get_obj_def end_obj_def and_then_def decr_def load_int_def
      store_int_def delete_chars_def delete_int_def INT_MIN_def)

lemma run_append: "run (xs @ ys) st = and_then (run xs st) (run ys)"
  by (induction xs arbitrary: st) (simp_all add: and_then_def split: sum.splits)

lemma copies_run:
  assumes "counter s = Some c"
  shows "objs st h0 = Some s \<Longrightarrow> ints st c = Some (Some v) \<Longrightarrow> h0 \<notin> set hs \<Longrightarrow>
     v + int (length hs) \<le> INT_MAX \<Longrightarrow>
     \<exists>st2. run (map (\<lambda>h. Copy h h0) hs) st = Inr st2 \<and>
        objs st2 = (\<lambda>h. if h \<in> set hs then Some s else objs st h) \<and>
        ints st2 = (ints st)(c \<mapsto> Some (v + int (length hs))) \<and>
        chars st2 = chars st \<and> next_addr st2 = next_addr st"
proof (induction hs arbitrary: st v)
  case Nil
  then show ?case by (simp add: map_upd_triv)
next
  case (Cons h hs)
  let ?st' = "st\<lparr>objs := (objs st)(h \<mapsto> s), ints := (ints st)(c \<mapsto> Some (v + 1))\<rparr>"
  have step: "Str_copy h h0 st = Inr ?st'"
    using Cons.prems assms by (intro copy_shared) auto
  have "\<exists>st2. run (map (\<lambda>h. Copy h h0) hs) ?st' = Inr st2 \<and>
        objs st2 = (\<lambda>k. if k \<in> set hs then Some s else objs ?st' k) \<and>
        ints st2 = (ints ?st')(c \<mapsto> Some (v + 1 + int (length hs))) \<and>
        chars st2 = chars ?st' \<and> next_addr st2 = next_addr ?st'"
    using Cons.prems by (intro Cons.IH) auto
  then obtain st2 where r: "run (map (\<lambda>h. Copy h h0) hs) ?st' = Inr st2"
    and o: "objs st2 = (\<lambda>k. if k \<in> set hs then Some s else objs ?st' k)"
    and i: "ints st2 = (ints ?st')(c \<mapsto> Some (v + 1 + int (length hs)))"
    and c: "chars st2 = chars ?st'" and n: "next_addr st2 = next_addr ?st'"
    by blast
  have r': "run (map (\<lambda>h. Copy h h0) (h # hs)) st = Inr st2"
    using step r by (simp add: and_then_def)
  have o': "objs st2 = (\<lambda>k. if k \<in> set (h # hs) then Some s else objs st k)"
    unfolding o by (rule ext) simp
  have i': "ints st2 = (ints st)(c \<mapsto> Some (v + int (length (h # hs))))"
    unfolding i by (simp add: add.assoc)
  have c': "chars st2 = chars st" and n': "next_addr st2 = next_addr st"
    using c n by simp_all
  show ?case
    using r' o' i' c' n' by blast
qed


lemma dtors_run:
  assumes "counter s = Some c"
  shows "\<forall>h\<in>set ks. objs st h = Some s \<Longrightarrow> distinct ks \<Longrightarrow> ints st c = Some (Some v) \<Longrightarrow>
     int (length ks) < v \<Longrightarrow>
     \<exists>st3. run (map Destroy ks) st = Inr st3 \<and>
        objs st3 = (\<lambda>h. if h \<in> set ks then None else objs st h) \<and>
        ints st3 = (ints st)(c \<mapsto> Some (v - int (length ks))) \<and>
        chars st3 = chars st \<and> next_addr st3 = next_addr st"
proof (induction ks arbitrary: st v)
  case Nil
  then show ?case by (simp add: map_upd_triv)
next
  case (Cons k ks)
  let ?st' = "st\<lparr>objs := (objs st)(k := None), ints := (ints st)(c \<mapsto> Some (v - 1))\<rparr>"
  have step: "Str_dtor k st = Inr ?st'"
    using Cons.prems assms by (intro dtor_shared) (auto simp: INT_MIN_def)
  have "\<exists>st3. run (map Destroy ks) ?st' = Inr st3 \<and>
        objs st3 = (\<lambda>h. if h \<in> set ks then None else objs ?st' h) \<and>
        ints st3 = (ints ?st')(c \<mapsto> Some (v - 1 - int (length ks))) \<and>
        chars st3 = chars ?st' \<and> next_addr st3 = next_addr ?st'"
    using Cons.prems by (intro Cons.IH) auto
  then obtain st3 where r: "run (map Destroy ks) ?st' = Inr st3"
    and o: "objs st3 = (\<lambda>h. if h \<in> set ks then None else objs ?st' h)"
    and i: "ints st3 = (ints ?st')(c \<mapsto> Some (v - 1 - int (length ks)))"
    and c: "chars st3 = chars ?st'" and n: "next_addr st3 = next_addr ?st'"
    by blast
  have r': "run (map Destroy (k # ks)) st = Inr st3"
    using step r by (simp add: and_then_def)
  have o': "objs st3 = (\<lambda>h. if h \<in> set (k # ks) then None else objs st h)"
    unfolding o by (rule ext) simp
  have i': "ints st3 = (ints st)(c \<mapsto> Some (v - int (length (k # ks))))"
    unfolding i by (simp add: algebra_simps)
  have c': "chars st3 = chars st" and n': "next_addr st3 = next_addr st"
    using c n by simp_all
  show ?case
    using r' o' i' c' n' by blast
qed

lemma dtors_run_all:
  assumes "counter s = Some c" "ptr s = Some p" "\<forall>h\<in>set ks. objs st h = Some s" "distinct ks"
    "ints st c = Some (Some (int (length ks)))" "ks \<noteq> []" "chars st p = Some cells"
  shows "\<exists>st3. run (map Destroy ks) st = Inr st3 \<and>
        objs st3 = (\<lambda>h. if h \<in> set ks then None else objs st h) \<and>
        ints st3 = (ints st)(c := None) \<and>
        chars st3 = (chars st)(p := None) \<and> next_addr st3 = next_addr st"
proof -
  define js k where "js = butlast ks" and "k = last ks"
  have ks: "ks = js @ [k]"
    using assms(6) by (simp add: js_def k_def)
  have "\<exists>st'. run (map Destroy js) st = Inr st' \<and>
        objs st' = (\<lambda>h. if h \<in> set js then None else objs st h) \<and>
        ints st' = (ints st)(c \<mapsto> Some (int (length ks) - int (length js))) \<and>
        chars st' = chars st \<and> next_addr st' = next_addr st"
    using assms(3,4,5) by (intro dtors_run [OF assms(1)]) (auto simp: ks)
  then obtain st' where r: "run (map Destroy js) st = Inr st'"
    and o: "objs st' = (\<lambda>h. if h \<in> set js then None else objs st h)"
    and i: "ints st' = (ints st)(c \<mapsto> Some (int (length ks) - int (length js)))"
    and c: "chars st' = chars st" and n: "next_addr st' = next_addr st"
    by blast
  have one: "ints st' c = Some (Some 1)"
    unfolding i by (simp add: ks)
  have k: "objs st' k = Some s"
    using assms(3,4) unfolding o by (simp add: ks)
  have last: "Str_dtor k st' = Inr (st'\<lparr>objs := (objs st')(k := None),
      chars := (chars st')(p := None), ints := (ints st')(c := None)\<rparr>)"
    using k assms(1) one assms(2) by (rule dtor_last) (simp add: c assms(7))
  let ?st3 = "st'\<lparr>objs := (objs st')(k := None),
      chars := (chars st')(p := None), ints := (ints st')(c := None)\<rparr>"
  have r': "run (map Destroy ks) st = Inr ?st3"
    using r last by (simp add: ks run_append and_then_def)
  have o': "objs ?st3 = (\<lambda>h. if h \<in> set ks then None else objs st h)"
    by (rule ext) (simp add: o ks)
  have i': "ints ?st3 = (ints st)(c := None)"
    by (simp add: i)
  have c': "chars ?st3 = (chars st)(p := None)" and n': "next_addr ?st3 = next_addr st"
    using c n by simp_all
  show ?thesis
    using r' o' i' c' n' by blast
qed

lemma incr_Inr:
  "incr a st = Inr st' \<Longrightarrow>
     \<exists>v. ints st a = Some (Some v) \<and> st' = st\<lparr>ints := (ints st)(a \<mapsto> Some (v + 1))\<rparr>"
  by (auto simp: incr_def load_int_def store_int_def and_then_def
      split: option.splits if_splits)

lemma decr_Inr:
  "decr a st = Inr st' \<Longrightarrow>
     \<exists>v. ints st a = Some (Some v) \<and> st' = st\<lparr>ints := (ints st)(a \<mapsto> Some (v - 1))\<rparr>"
  by (auto simp: decr_def load_int_def store_int_def and_then_def
      split: option.splits if_splits)

text \<open>
  What a successful operation leaves of the store: the objects, the arrays, the
  allocated counter cells and the next address.
\<close>

lemma and_then_Inr: "and_then m f = Inr y \<longleftrightarrow> (\<exists>x. m = Inr x \<and> f x = Inr y)"
  by (cases m) (simp_all add: and_then_def)

lemma get_obj_Inr: "get_obj l st = Inr x \<longleftrightarrow> objs st l = Some x"
  by (simp add: get_obj_def split: option.splits)

lemma Str_eta: "\<lparr>ptr = ptr x, counter = counter x\<rparr> = x"
  by (cases x) simp

lemma opt_incr_frame:
  assumes "(case c of None \<Rightarrow> Inr st | Some a \<Rightarrow> incr a st) = Inr st'"
  shows "objs st' = objs st \<and> chars st' = chars st \<and> next_addr st' = next_addr st \<and>
     (\<forall>a. (ints st' a = None) = (ints st a = None))"
  using assms by (cases c) (auto dest!: incr_Inr split: if_splits)

lemma opt_decr_frame:
  assumes "(case c of None \<Rightarrow> Inr st | Some a \<Rightarrow> decr a st) = Inr st'"
  shows "objs st' = objs st \<and> chars st' = chars st \<and> next_addr st' = next_addr st \<and>
     (\<forall>a. (ints st' a = None) = (ints st a = None))"
  using assms by (cases c) (auto dest!: decr_Inr split: if_splits)

lemma Str_copy_steps:
  assumes "Str_copy this other st = Inr st'"
  shows "\<exists>x. objs st other = Some x \<and>
     (case counter x of None \<Rightarrow> Inr (put_obj this x st)
      | Some c \<Rightarrow> incr c (put_obj this x st)) = Inr st'"
  using assms by (auto simp: Str_copy_def and_then_Inr get_obj_Inr Let_def Str_eta)

lemma Str_copy_Inr:
  assumes "Str_copy this other st = Inr st'"
  shows "\<exists>x. objs st other = Some x \<and> objs st' = (objs st)(this \<mapsto> x) \<and>
     chars st' = chars st \<and> next_addr st' = next_addr st \<and>
     (\<forall>a. (ints st' a = None) = (ints st a = None))"
proof -
  obtain x where x: "objs st other = Some x"
    and r: "(case counter x of None \<Rightarrow> Inr (put_obj this x st)
             | Some c \<Rightarrow> incr c (put_obj this x st)) = Inr st'"
    using Str_copy_steps [OF assms] by blast
  from opt_incr_frame [OF r] show ?thesis
    using x by (simp add: put_obj_def)
qed

text \<open>
  The copy assignment in two steps: release the target's old counter, then store the
  source's two pointers in the target and take a share of the source's counter. The
  source is read after the release, and reads the same whether or not it is the target.
\<close>

lemma Str_assign_steps:
  assumes "Str_assign this other st = Inr st'"
  shows "\<exists>t0 x st1. objs st this = Some t0 \<and> objs st other = Some x \<and>
     (case counter t0 of None \<Rightarrow> Inr st | Some c \<Rightarrow> decr c st) = Inr st1 \<and>
     (case counter x of None \<Rightarrow> Inr (put_obj this x st1)
      | Some c \<Rightarrow> incr c (put_obj this x st1)) = Inr st'"
proof -
  from assms obtain t0 st1 o1 t1 o2 t2 t3 where t0: "objs st this = Some t0"
    and st1: "(case counter t0 of None \<Rightarrow> Inr st | Some c \<Rightarrow> decr c st) = Inr st1"
    and o1: "objs st1 other = Some o1" and t1: "objs st1 this = Some t1"
    and o2: "objs (put_obj this (t1\<lparr>ptr := ptr o1\<rparr>) st1) other = Some o2"
    and t2: "objs (put_obj this (t1\<lparr>ptr := ptr o1\<rparr>) st1) this = Some t2"
    and t3: "objs (put_obj this (t2\<lparr>counter := counter o2\<rparr>)
                   (put_obj this (t1\<lparr>ptr := ptr o1\<rparr>) st1)) this = Some t3"
    and r: "(case counter t3 of
               None \<Rightarrow> Inr (put_obj this (t2\<lparr>counter := counter o2\<rparr>)
                   (put_obj this (t1\<lparr>ptr := ptr o1\<rparr>) st1))
             | Some c \<Rightarrow> incr c (put_obj this (t2\<lparr>counter := counter o2\<rparr>)
                   (put_obj this (t1\<lparr>ptr := ptr o1\<rparr>) st1))) = Inr st'"
    unfolding Str_assign_def and_then_Inr get_obj_Inr Let_def by blast
  note f1 = opt_decr_frame [OF st1]
  have co2: "counter o2 = counter o1"
    using o1 o2 t1 by (cases "other = this") (auto simp: put_obj_def)
  have t2': "t2 = t1\<lparr>ptr := ptr o1\<rparr>"
    using t2 by (simp add: put_obj_def)
  have t3': "t3 = o1"
    using t3 by (cases t1; cases o1) (simp add: put_obj_def t2' co2)
  have st3: "put_obj this (t2\<lparr>counter := counter o2\<rparr>)
                   (put_obj this (t1\<lparr>ptr := ptr o1\<rparr>) st1) = put_obj this o1 st1"
    by (cases t1; cases o1) (simp add: put_obj_def t2' co2)
  have "objs st other = Some o1"
    using o1 f1 by simp
  then show ?thesis
    using t0 st1 r unfolding st3 t3' by blast
qed

lemma Str_assign_Inr:
  assumes "Str_assign this other st = Inr st'"
  shows "\<exists>x. objs st other = Some x \<and> objs st' = (objs st)(this \<mapsto> x) \<and>
     chars st' = chars st \<and> next_addr st' = next_addr st \<and>
     (\<forall>a. (ints st' a = None) = (ints st a = None))"
proof -
  obtain t0 x st1 where t0: "objs st this = Some t0" and x: "objs st other = Some x"
    and d: "(case counter t0 of None \<Rightarrow> Inr st | Some c \<Rightarrow> decr c st) = Inr st1"
    and r: "(case counter x of None \<Rightarrow> Inr (put_obj this x st1)
      | Some c \<Rightarrow> incr c (put_obj this x st1)) = Inr st'"
    using Str_assign_steps [OF assms] by blast
  from opt_decr_frame [OF d] opt_incr_frame [OF r] show ?thesis
    using x by (simp add: put_obj_def)
qed

lemma Str_dtor_Inr:
  assumes "Str_dtor this st = Inr st'"
  shows "objs st' = (objs st)(this := None) \<and> next_addr st' = next_addr st \<and>
     (\<forall>a. chars st' a = chars st a \<or> chars st' a = None) \<and>
     (\<forall>a. ints st a = None \<longrightarrow> ints st' a = None)"
  using assms
  by (auto simp: Str_dtor_def get_obj_def and_then_def end_obj_def load_int_def
      delete_chars_def delete_int_def
      split: option.splits sum.splits if_splits dest!: decr_Inr)


lemma exec_frame:
  assumes "exec c st = Inr st'"
  shows "next_addr st \<le> next_addr st'"
    and "fresh_above st \<Longrightarrow> fresh_above st'"
    and "paired st \<Longrightarrow> paired st'"
    and "a < next_addr st \<Longrightarrow> chars st' a = chars st a \<or> chars st' a = None"
proof -
  have "next_addr st \<le> next_addr st' \<and> (fresh_above st \<longrightarrow> fresh_above st') \<and>
    (paired st \<longrightarrow> paired st') \<and>
    (a < next_addr st \<longrightarrow> chars st' a = chars st a \<or> chars st' a = None)"
  proof (cases c)
    case (Default h)
    then show ?thesis
      using assms
      by (auto simp: Str_default_def put_obj_def fresh_above_def paired_def split: if_splits)
  next
    case (From h str len)
    then have "Str_from h str len st = Inr st'"
      using assms by simp
    then show ?thesis
      unfolding Str_from_Inr by (auto simp: fresh_above_def paired_def split: if_splits)
  next
    case (Copy h other)
    then have "Str_copy h other st = Inr st'"
      using assms by simp
    from Str_copy_Inr [OF this] show ?thesis
      by (auto simp: fresh_above_def paired_def split: if_splits)
  next
    case (Assign h other)
    then have "Str_assign h other st = Inr st'"
      using assms by simp
    from Str_assign_Inr [OF this] show ?thesis
      by (auto simp: fresh_above_def paired_def split: if_splits)
  next
    case (Destroy h)
    then have "Str_dtor h st = Inr st'"
      using assms by simp
    from Str_dtor_Inr [OF this] show ?thesis
      by (auto simp: fresh_above_def paired_def split: if_splits) metis
  qed
  then show "next_addr st \<le> next_addr st'"
    and "fresh_above st \<Longrightarrow> fresh_above st'"
    and "paired st \<Longrightarrow> paired st'"
    and "a < next_addr st \<Longrightarrow> chars st' a = chars st a \<or> chars st' a = None"
    by auto
qed

lemma run_invariants:
  "run cs st = Inr st' \<Longrightarrow> paired st \<Longrightarrow> fresh_above st \<Longrightarrow>
     paired st' \<and> fresh_above st'"
proof (induction cs arbitrary: st)
  case Nil
  then show ?case by simp
next
  case (Cons c cs)
  from Cons.prems(1) obtain st1 where e: "exec c st = Inr st1" and r: "run cs st1 = Inr st'"
    by (auto simp: and_then_Inr)
  show ?case
    using Cons.IH [OF r] exec_frame(2,3) [OF e] Cons.prems(2,3) by blast
qed

lemma run_immutable:
  "run cs st = Inr st' \<Longrightarrow> fresh_above st \<Longrightarrow> a < next_addr st \<Longrightarrow>
     chars st' a = chars st a \<or> chars st' a = None"
proof (induction cs arbitrary: st)
  case Nil
  then show ?case by simp
next
  case (Cons c cs)
  from Cons.prems(1) obtain st1 where e: "exec c st = Inr st1" and r: "run cs st1 = Inr st'"
    by (auto simp: and_then_Inr)
  have "a < next_addr st1"
    using exec_frame(1) [OF e] Cons.prems(3) by simp
  from Cons.IH [OF r exec_frame(2) [OF e Cons.prems(2)] this]
    exec_frame(4) [OF e Cons.prems(3)]
  show ?case by auto
qed

lemma init_invariants: "paired init" "fresh_above init"
  by (simp_all add: paired_def fresh_above_def init_def)

lemma reachable_invariants:
  "run prog init = Inr st \<Longrightarrow> paired st \<and> fresh_above st"
  using run_invariants init_invariants by blast

subsection \<open>No handle outlives its buffer\<close>

lemma sharers_upd:
  "sharers (m(h \<mapsto> x)) c =
     (if counter x = Some c then insert h (sharers m c) else sharers m c - {h})"
  by (auto simp: sharers_def)

lemma sharers_del: "sharers (m(h := None)) c = sharers m c - {h}"
  by (auto simp: sharers_def)

lemma finite_sharers: "finite (dom m) \<Longrightarrow> finite (sharers m c)"
  by (rule finite_subset [of _ "dom m"]) (auto simp: sharers_def)

lemma card_sharers_upd:
  assumes "finite (dom m)"
  shows "int (card (sharers (m(h \<mapsto> x)) c)) \<le>
     int (card (sharers m c)) + (if counter x = Some c then 1 else 0)"
proof -
  have f: "finite (sharers m c)"
    using assms by (rule finite_sharers)
  show ?thesis
    using f card_insert_le_m1 [of 1 "sharers m c" h] card_Diff1_le [of "sharers m c" h]
    by (auto simp: sharers_upd card_insert_if)
qed

lemma card_sharers_drop:
  assumes "finite (dom m)" and "m h = Some t" and "counter t = Some c"
  shows "int (card (sharers m c - {h})) = int (card (sharers m c)) - 1"
proof -
  have f: "finite (sharers m c)"
    using assms(1) by (rule finite_sharers)
  have h: "h \<in> sharers m c"
    using assms(2,3) by (auto simp: sharers_def)
  then have "0 < card (sharers m c)"
    using f by (auto simp: card_gt_0_iff)
  moreover have "card (sharers m c - {h}) = card (sharers m c) - 1"
    using h by simp
  ultimately show ?thesis
    by (cases "card (sharers m c)") simp_all
qed


lemma handle_ok_None: "counter x = None \<Longrightarrow> handle_ok st x = (ptr x = None)"
  by (simp add: handle_ok_def)

lemma handle_ok_Some:
  "counter x = Some c \<Longrightarrow>
     handle_ok st x =
       (ptr x = Some (Suc c) \<and> Suc c < next_addr st \<and>
        (\<exists>s. chars st (Suc c) = Some (map Some s @ [Some NUL])) \<and> counted st c)"
  by (simp add: handle_ok_def)

text \<open>A handle stays in order when its buffer and the bound on its count do.\<close>

lemma handle_ok_kept:
  assumes "handle_ok st x" and "next_addr st \<le> next_addr st'"
    and "\<And>c. counter x = Some c \<Longrightarrow> chars st' (Suc c) = chars st (Suc c) \<and> counted st' c"
  shows "handle_ok st' x"
proof (cases "counter x")
  case None
  then show ?thesis
    using assms(1) by (simp add: handle_ok_None)
next
  case (Some c)
  then show ?thesis
    using assms(1,2) assms(3) [OF Some] by (auto simp: handle_ok_Some)
qed

lemma counted_upd_other:
  assumes "finite (dom (objs st))" and "counted st c" and "counter x \<noteq> Some c"
    and "objs st' = (objs st)(h \<mapsto> x)" and "ints st' c = ints st c"
  shows "counted st' c"
proof -
  have "int (card (sharers (objs st') c)) \<le> int (card (sharers (objs st) c))"
    using card_sharers_upd [OF assms(1), of h x c] assms(3,4) by simp
  then show ?thesis
    using assms(2,5) unfolding counted_def by fastforce
qed

lemma counted_upd_same:
  assumes "finite (dom (objs st))" and "ints st c = Some (Some v)" and "counted st c"
    and "objs st' = (objs st)(h \<mapsto> x)" and "ints st' c = Some (Some (v + 1))"
  shows "counted st' c"
proof -
  have "int (card (sharers (objs st') c)) \<le> int (card (sharers (objs st) c)) + 1"
    using card_sharers_upd [OF assms(1), of h x c] assms(4) by (simp split: if_splits)
  then show ?thesis
    using assms(2,3,5) unfolding counted_def by fastforce
qed

lemma counted_del:
  assumes "finite (dom (objs st))" and "counted st c"
    and "objs st' = (objs st)(h := None)" and "ints st' c = ints st c"
  shows "counted st' c"
proof -
  have "finite (sharers (objs st) c)"
    using assms(1) by (rule finite_sharers)
  then have "card (sharers (objs st) c - {h}) \<le> card (sharers (objs st) c)"
    by (intro card_mono) auto
  then show ?thesis
    using assms(2,3,4) unfolding counted_def by (fastforce simp: sharers_del)
qed

lemma sound_default:
  assumes "sound st"
  shows "sound (put_obj h \<lparr>ptr = None, counter = None\<rparr> st)"
proof -
  let ?st' = "put_obj h \<lparr>ptr = None, counter = None\<rparr> st"
  have fin: "finite (dom (objs st))" and fr: "fresh_above st"
    and ok: "\<And>g x. objs st g = Some x \<Longrightarrow> handle_ok st x"
    using assms unfolding sound_def by blast+
  have "handle_ok ?st' y" if "objs ?st' g = Some y" for g y
  proof (cases "g = h")
    case True
    then show ?thesis
      using that by (auto simp: put_obj_def handle_ok_def)
  next
    case False
    then have y: "objs st g = Some y"
      using that by (simp add: put_obj_def)
    show ?thesis
    proof (rule handle_ok_kept [OF ok [OF y]])
      show "next_addr st \<le> next_addr ?st'"
        by (simp add: put_obj_def)
      fix c assume c: "counter y = Some c"
      have "counted st c"
        using ok [OF y] c by (simp add: handle_ok_Some)
      then have "counted ?st' c"
        by (rule counted_upd_other [OF fin]) (simp_all add: put_obj_def)
      then show "chars ?st' (Suc c) = chars st (Suc c) \<and> counted ?st' c"
        by (simp add: put_obj_def)
    qed
  qed
  then show ?thesis
    using fin fr unfolding sound_def by (auto simp: put_obj_def fresh_above_def)
qed


lemma sound_from:
  assumes "sound st" and "Str_from h str len st = Inr st'"
  shows "sound st'"
proof -
  define c0 where "c0 = next_addr st"
  define new where "new = \<lparr>ptr = Some (Suc c0), counter = Some c0\<rparr>"
  have fin: "finite (dom (objs st))" and fr: "fresh_above st"
    and ok: "\<And>g x. objs st g = Some x \<Longrightarrow> handle_ok st x"
    using assms(1) unfolding sound_def by blast+
  obtain bs where o': "objs st' = (objs st)(h \<mapsto> new)"
    and c': "chars st' = (chars st)(Suc c0 \<mapsto> map Some (take len bs) @ [Some NUL])"
    and i': "ints st' = (ints st)(c0 \<mapsto> Some 1)"
    and n': "next_addr st' = Suc (Suc c0)"
    using assms(2) unfolding Str_from_Inr c0_def new_def by auto
  have below: "Suc c < c0" if "objs st g = Some y" "counter y = Some c" for g y c
    using ok [OF that(1)] that(2) by (simp add: handle_ok_Some c0_def)
  have "sharers (objs st) c0 = {}"
    using below by (fastforce simp: sharers_def)
  then have own: "counted st' c0"
    by (simp add: counted_def i' o' sharers_upd new_def)
  have "handle_ok st' y" if y: "objs st' g = Some y" for g y
  proof (cases "g = h")
    case True
    then have "y = new"
      using y by (simp add: o')
    then show ?thesis
      using own by (simp add: handle_ok_def new_def c' n')
  next
    case False
    then have old: "objs st g = Some y"
      using y by (simp add: o')
    show ?thesis
    proof (rule handle_ok_kept [OF ok [OF old]])
      show "next_addr st \<le> next_addr st'"
        by (simp add: n' c0_def)
      fix c assume c: "counter y = Some c"
      have lt: "Suc c < c0"
        using below [OF old c] .
      have "counted st c"
        using ok [OF old] c by (simp add: handle_ok_Some)
      then have "counted st' c"
        using lt by (intro counted_upd_other [OF fin _ _ o']) (simp_all add: new_def i')
      then show "chars st' (Suc c) = chars st (Suc c) \<and> counted st' c"
        using lt by (simp add: c')
    qed
  qed
  moreover have "fresh_above st'"
    using fr by (auto simp: fresh_above_def c' i' n' c0_def)
  moreover have "finite (dom (objs st'))"
    using fin by (simp add: o')
  ultimately show ?thesis
    unfolding sound_def by blast
qed

lemma sound_copy:
  assumes "sound st" and "Str_copy h other st = Inr st'"
  shows "sound st'"
proof -
  have fin: "finite (dom (objs st))" and fr: "fresh_above st"
    and ok: "\<And>g x. objs st g = Some x \<Longrightarrow> handle_ok st x"
    using assms(1) unfolding sound_def by blast+
  obtain x where x: "objs st other = Some x"
    and r: "(case counter x of None \<Rightarrow> Inr (put_obj h x st)
      | Some c \<Rightarrow> incr c (put_obj h x st)) = Inr st'"
    using Str_copy_steps [OF assms(2)] by blast
  note fr' = opt_incr_frame [OF r]
  have o': "objs st' = (objs st)(h \<mapsto> x)" and c': "chars st' = chars st"
    and n': "next_addr st' = next_addr st"
    using fr' by (simp_all add: put_obj_def)
  have i': "ints st' c = (if counter x = Some c
      then map_option (map_option (\<lambda>v. v + 1)) (ints st c) else ints st c)" for c
    using r by (cases "counter x") (auto simp: put_obj_def dest!: incr_Inr)
  have before: "handle_ok st y" if "objs st' g = Some y" for g y
    using that x ok by (cases "g = h") (auto simp: o')
  have "handle_ok st' y" if y: "objs st' g = Some y" for g y
  proof (rule handle_ok_kept [OF before [OF y]])
    show "next_addr st \<le> next_addr st'"
      by (simp add: n')
    fix c assume c: "counter y = Some c"
    have cnt: "counted st c"
      using before [OF y] c by (simp add: handle_ok_Some)
    then obtain v where v: "ints st c = Some (Some v)"
      unfolding counted_def by blast
    have "counted st' c"
    proof (cases "counter x = Some c")
      case True
      show ?thesis
        by (rule counted_upd_same [OF fin v cnt o']) (simp add: i' True v)
    next
      case False
      show ?thesis
        by (rule counted_upd_other [OF fin cnt False o']) (simp add: i' False)
    qed
    then show "chars st' (Suc c) = chars st (Suc c) \<and> counted st' c"
      by (simp add: c')
  qed
  moreover have "fresh_above st'"
    using fr fr' by (auto simp: fresh_above_def put_obj_def)
  moreover have "finite (dom (objs st'))"
    using fin by (simp add: o')
  ultimately show ?thesis
    unfolding sound_def by blast
qed


lemma sound_assign:
  assumes "sound st" and "Str_assign h other st = Inr st'"
  shows "sound st'"
proof -
  have fin: "finite (dom (objs st))" and fr: "fresh_above st"
    and ok: "\<And>g x. objs st g = Some x \<Longrightarrow> handle_ok st x"
    using assms(1) unfolding sound_def by blast+
  obtain t0 x st1 where t0: "objs st h = Some t0" and x: "objs st other = Some x"
    and d: "(case counter t0 of None \<Rightarrow> Inr st | Some c \<Rightarrow> decr c st) = Inr st1"
    and r: "(case counter x of None \<Rightarrow> Inr (put_obj h x st1)
      | Some c \<Rightarrow> incr c (put_obj h x st1)) = Inr st'"
    using Str_assign_steps [OF assms(2)] by blast
  note f1 = opt_decr_frame [OF d]
  note f2 = opt_incr_frame [OF r]
  have o': "objs st' = (objs st)(h \<mapsto> x)" and c': "chars st' = chars st"
    and n': "next_addr st' = next_addr st"
    using f1 f2 by (simp_all add: put_obj_def)
  have i1: "ints st1 c = (if counter t0 = Some c
      then map_option (map_option (\<lambda>v. v - 1)) (ints st c) else ints st c)" for c
    using d by (cases "counter t0") (auto dest!: decr_Inr)
  have i': "ints st' c = (if counter x = Some c
      then map_option (map_option (\<lambda>v. v + 1)) (ints st1 c) else ints st1 c)" for c
    using r by (cases "counter x") (auto simp: put_obj_def dest!: incr_Inr)
  have before: "handle_ok st y" if "objs st' g = Some y" for g y
    using that x ok by (cases "g = h") (auto simp: o')
  have "handle_ok st' y" if y: "objs st' g = Some y" for g y
  proof (rule handle_ok_kept [OF before [OF y]])
    show "next_addr st \<le> next_addr st'"
      by (simp add: n')
    fix c assume c: "counter y = Some c"
    have cnt: "counted st c"
      using before [OF y] c by (simp add: handle_ok_Some)
    then obtain v where v: "ints st c = Some (Some v)"
      and le: "int (card (sharers (objs st) c)) \<le> v"
      unfolding counted_def by blast
    have "counted st' c"
    proof (cases "counter t0 = Some c")
      case A: True
      have hin: "h \<in> sharers (objs st) c"
        using t0 A by (auto simp: sharers_def)
      show ?thesis
      proof (cases "counter x = Some c")
        case True
        have "sharers (objs st') c = sharers (objs st) c"
          using hin True by (auto simp: o' sharers_upd)
        moreover have "ints st' c = Some (Some v)"
          by (simp add: i' i1 A True v)
        ultimately show ?thesis
          using le unfolding counted_def by simp
      next
        case False
        have "int (card (sharers (objs st') c)) = int (card (sharers (objs st) c)) - 1"
          using card_sharers_drop [OF fin t0 A] False by (simp add: o' sharers_upd)
        moreover have "ints st' c = Some (Some (v - 1))"
          by (simp add: i' i1 A False v)
        ultimately show ?thesis
          using le unfolding counted_def by simp
      qed
    next
      case notA: False
      show ?thesis
      proof (cases "counter x = Some c")
        case True
        show ?thesis
          by (rule counted_upd_same [OF fin v cnt o']) (simp add: i' i1 notA True v)
      next
        case False
        show ?thesis
          by (rule counted_upd_other [OF fin cnt False o']) (simp add: i' i1 notA False)
      qed
    qed
    then show "chars st' (Suc c) = chars st (Suc c) \<and> counted st' c"
      by (simp add: c')
  qed
  moreover have "fresh_above st'"
    using fr f1 f2 by (auto simp: fresh_above_def put_obj_def)
  moreover have "finite (dom (objs st'))"
    using fin by (simp add: o')
  ultimately show ?thesis
    unfolding sound_def by blast
qed

lemma sound_dtor:
  assumes "sound st" and "Str_dtor h st = Inr st'"
  shows "sound st'"
proof -
  have fin: "finite (dom (objs st))" and fr: "fresh_above st"
    and ok: "\<And>g x. objs st g = Some x \<Longrightarrow> handle_ok st x"
    using assms(1) unfolding sound_def by blast+
  obtain t where t: "objs st h = Some t"
    using assms(2) by (auto simp: Str_dtor_def and_then_Inr get_obj_Inr)
  note fd = Str_dtor_Inr [OF assms(2)]
  have o': "objs st' = (objs st)(h := None)" and n': "next_addr st' = next_addr st"
    using fd by simp_all
  have old: "objs st g = Some y \<and> g \<noteq> h" if "objs st' g = Some y" for g y
    using that by (cases "g = h") (simp_all add: o')
  have kept: "chars st' (Suc c) = chars st (Suc c) \<and> counted st' c"
    if y: "objs st' g = Some y" and c: "counter y = Some c" for g y c
  proof -
    have yo: "objs st g = Some y" and gh: "g \<noteq> h"
      using old [OF y] by simp_all
    have cnt: "counted st c"
      using ok [OF yo] c by (simp add: handle_ok_Some)
    then obtain v where v: "ints st c = Some (Some v)"
      and le: "int (card (sharers (objs st) c)) \<le> v"
      unfolding counted_def by blast
    have gin: "g \<in> sharers (objs st) c - {h}"
      using yo c gh by (auto simp: sharers_def)
    have fS: "finite (sharers (objs st) c)"
      using fin by (rule finite_sharers)
    show ?thesis
    proof (cases "counter t = Some c")
      case False
      have same: "chars st' = chars st \<or> (\<exists>c0. counter t = Some c0 \<and>
          chars st' = (chars st)(Suc c0 := None)) " and si: "ints st' c = ints st c"
      proof -
        show "chars st' = chars st \<or> (\<exists>c0. counter t = Some c0 \<and>
          chars st' = (chars st)(Suc c0 := None))"
        proof (cases "counter t")
          case None
          then show ?thesis
            using assms(2) t
            by (auto simp: Str_dtor_def and_then_def get_obj_def end_obj_def)
        next
          case (Some c0)
          have p: "ptr t = Some (Suc c0)"
            using ok [OF t] Some by (simp add: handle_ok_Some)
          show ?thesis
            using assms(2) t Some p
            by (auto simp: Str_dtor_def and_then_def get_obj_def end_obj_def load_int_def
                delete_chars_def delete_int_def
                split: option.splits sum.splits if_splits dest!: decr_Inr)
        qed
        show "ints st' c = ints st c"
          using assms(2) t False
          by (auto simp: Str_dtor_def and_then_def get_obj_def end_obj_def load_int_def
              delete_chars_def delete_int_def
              split: option.splits sum.splits if_splits dest!: decr_Inr)
      qed
      have "chars st' (Suc c) = chars st (Suc c)"
        using same False by auto
      moreover have "counted st' c"
        by (rule counted_del [OF fin cnt o' si])
      ultimately show ?thesis by simp
    next
      case True
      have p: "ptr t = Some (Suc c)" and al: "\<exists>s. chars st (Suc c) = Some s"
        using ok [OF t] True by (auto simp: handle_ok_Some)
      have drop: "int (card (sharers (objs st) c - {h})) = int (card (sharers (objs st) c)) - 1"
        by (rule card_sharers_drop [OF fin t True])
      have pos: "0 < card (sharers (objs st) c - {h})"
        using gin fS by (auto simp: card_gt_0_iff)
      have v2: "2 \<le> v"
        using drop pos le by linarith
      have "Str_dtor h st = Inr (st\<lparr>objs := (objs st)(h := None),
          ints := (ints st)(c \<mapsto> Some (v - 1))\<rparr>)"
        using t True v v2 by (intro dtor_shared) (simp_all add: INT_MIN_def)
      then have st': "st' = st\<lparr>objs := (objs st)(h := None),
          ints := (ints st)(c \<mapsto> Some (v - 1))\<rparr>"
        using assms(2) by simp
      have "counted st' c"
        unfolding counted_def using drop le by (simp add: st' sharers_del)
      then show ?thesis
        by (simp add: st')
    qed
  qed
  have "handle_ok st' y" if y: "objs st' g = Some y" for g y
  proof (rule handle_ok_kept)
    show "handle_ok st y"
      using ok old [OF y] by blast
    show "next_addr st \<le> next_addr st'"
      by (simp add: n')
    show "\<And>c. counter y = Some c \<Longrightarrow> chars st' (Suc c) = chars st (Suc c) \<and> counted st' c"
      using kept [OF y] .
  qed
  moreover have "fresh_above st'"
    using fr fd unfolding fresh_above_def by metis
  moreover have "finite (dom (objs st'))"
    using fin by (simp add: o')
  ultimately show ?thesis
    unfolding sound_def by blast
qed

lemma sound_exec: "sound st \<Longrightarrow> exec c st = Inr st' \<Longrightarrow> sound st'"
proof (cases c)
  case (Default h)
  assume "sound st" "exec c st = Inr st'"
  then show ?thesis
    using Default sound_default [of st h] by (simp add: Str_default_def)
qed (auto intro: sound_from sound_copy sound_assign sound_dtor)

lemma sound_run: "run cs st = Inr st' \<Longrightarrow> sound st \<Longrightarrow> sound st'"
proof (induction cs arbitrary: st)
  case Nil
  then show ?case by simp
next
  case (Cons c cs)
  from Cons.prems(1) obtain st1 where e: "exec c st = Inr st1" and r: "run cs st1 = Inr st'"
    by (auto simp: and_then_Inr)
  show ?case
    using Cons.IH [OF r] sound_exec [OF Cons.prems(2) e] by blast
qed

lemma sound_init: "sound init"
  by (simp add: sound_def fresh_above_def init_def)

lemma reachable_sound: "run prog init = Inr st \<Longrightarrow> sound st"
  using sound_run sound_init by blast

text \<open>
  Every live handle of a state a program reaches is Uninitialized or Initialized with
  some content: no handle is left pointing at a freed buffer.
\<close>

lemma reachable_holds:
  assumes "run prog init = Inr st" and "objs st h = Some x"
  shows "\<exists>v. holds st h v"
proof -
  have ok: "handle_ok st x"
    using reachable_sound [OF assms(1)] assms(2) unfolding sound_def by blast
  show ?thesis
  proof (cases "counter x")
    case None
    then have "holds st h None"
      using ok assms(2) by (simp add: handle_ok_None holds_def)
    then show ?thesis ..
  next
    case (Some c)
    then obtain s where "ptr x = Some (Suc c)"
      and "chars st (Suc c) = Some (map Some s @ [Some NUL])"
      using ok by (auto simp: handle_ok_Some)
    then have "holds st h (Some s)"
      using assms(2) by (simp add: holds_def)
    then show ?thesis ..
  qed
qed


section \<open>What the library functions compute on a buffer\<close>

lemma of_char_NUL: "(of_char NUL :: nat) = 0"
  by (simp add: NUL_def)

lemma NUL_less: "(NUL < c) = (c \<noteq> NUL)"
proof -
  have "((of_char c :: nat) = of_char NUL) = (c = NUL)"
    by (rule of_char_eq_iff)
  then show ?thesis
    unfolding less_char_def of_char_NUL by auto
qed

lemma of_char_pos: "(0 < (of_char c :: nat)) = (c \<noteq> NUL)"
  using NUL_less [of c] unfolding less_char_def of_char_NUL .

lemma not_less_NUL: "\<not> c < NUL"
  unfolding less_char_def of_char_NUL by simp

lemma char_less_nat: "((of_char a :: nat) < of_char b) = (a < b)"
  by (simp only: less_char_def)

lemma char_less_int: "((of_char a :: int) < of_char b) = (a < b)"
proof -
  have "((of_char a :: int) < of_char b) = (int (of_char a) < int (of_char b))"
    by (simp only: of_nat_of_char)
  also have "\<dots> = ((of_char a :: nat) < of_char b)"
    by (simp only: of_nat_less_iff)
  finally show ?thesis
    by (simp only: less_char_def)
qed

lemma of_char_pos_int: "(0 < (of_char c :: int)) = (c \<noteq> NUL)"
proof -
  have "(of_char NUL :: int) = 0"
    by (simp add: NUL_def)
  then show ?thesis
    using char_less_int [of NUL c] by (simp add: NUL_less)
qed

lemma c_string_Cons: "c_string (a # s) = (if a = NUL then [] else a # c_string s)"
  by (simp add: c_string_def)

lemma c_string_Nil: "c_string [] = []"
  by (simp add: c_string_def)

lemma strcmp_cstr:
  "\<exists>r. strcmp (map Some s1 @ [Some NUL]) (map Some s2 @ [Some NUL]) = Inr r \<and>
       (r < 0) = (c_string s1 < c_string s2) \<and> (r = 0) = (c_string s1 = c_string s2)"
proof (induction s1 arbitrary: s2)
  case Nil
  show ?case
    by (cases s2) (auto simp: c_string_Cons c_string_Nil of_char_NUL of_char_pos of_char_pos_int)
next
  case (Cons a s1)
  show ?case
  proof (cases s2)
    case Nil
    then show ?thesis
      by (auto simp: c_string_Cons c_string_Nil of_char_NUL of_char_pos of_char_pos_int)
  next
    case (Cons b s2')
    show ?thesis
    proof (cases "a = b")
      case True
      then show ?thesis
        using Cons.IH [of s2'] Cons by (auto simp: c_string_Cons)
    next
      case False
      then show ?thesis
        using Cons
        by (auto simp: c_string_Cons char_less_int char_less_nat NUL_less not_less_NUL of_char_NUL of_char_pos of_char_pos_int)
    qed
  qed
qed


lemma holds_None: "holds st h None = (\<exists>x. objs st h = Some x \<and> ptr x = None)"
  by (simp add: holds_def split: option.splits)

lemma holds_Some:
  "holds st h (Some s) =
     (\<exists>x a. objs st h = Some x \<and> ptr x = Some a \<and> chars st a = Some (map Some s @ [Some NUL]))"
  by (auto simp: holds_def split: option.splits)

lemma key_simps: "key None = None" "key (Some s) = Some (c_string s)"
  by (simp_all add: key_def)

lemma strcmp_at_cstr:
  assumes "chars st a1 = Some (map Some s1 @ [Some NUL])"
    and "chars st a2 = Some (map Some s2 @ [Some NUL])"
  shows "\<exists>r. strcmp_at (Some a1) (Some a2) st = Inr r \<and>
       (r < 0) = (c_string s1 < c_string s2) \<and> (r = 0) = (c_string s1 = c_string s2) \<and>
       (0 < r) = (c_string s2 < c_string s1) \<and> (r \<le> 0) = (c_string s1 \<le> c_string s2) \<and>
       (0 \<le> r) = (c_string s2 \<le> c_string s1)"
proof -
  obtain r where r: "strcmp (map Some s1 @ [Some NUL]) (map Some s2 @ [Some NUL]) = Inr r"
    and lt: "(r < 0) = (c_string s1 < c_string s2)"
    and eq: "(r = 0) = (c_string s1 = c_string s2)"
    using strcmp_cstr [of s1 s2] by blast
  have "strcmp_at (Some a1) (Some a2) st = Inr r"
    using assms r by (simp add: strcmp_at_def deref_chars_def and_then_def)
  moreover have "(0 < r) = (c_string s2 < c_string s1)"
    using lt eq by (metis linorder_neqE_linordered_idom not_less_iff_gr_or_eq)
  moreover have "(r \<le> 0) = (c_string s1 \<le> c_string s2)"
    using lt eq by (simp add: le_less)
  moreover have "(0 \<le> r) = (c_string s2 \<le> c_string s1)"
    using lt eq by (metis linorder_neqE_linordered_idom not_less_iff_gr_or_eq le_less not_le)
  ultimately show ?thesis
    using lt eq by blast
qed

lemma compare_holds:
  assumes "holds st h1 v1" and "holds st h2 v2"
  shows "op_lt h1 h2 st = Inr (key v1 < key v2)"
    and "op_gt h1 h2 st = Inr (key v2 < key v1)"
    and "op_le h1 h2 st = Inr (key v1 \<le> key v2)"
    and "op_ge h1 h2 st = Inr (key v2 \<le> key v1)"
    and "op_eq h1 h2 st = Inr (key v1 = key v2)"
    and "op_ne h1 h2 st = Inr (key v1 \<noteq> key v2)"
proof -
  have "op_lt h1 h2 st = Inr (key v1 < key v2) \<and> op_gt h1 h2 st = Inr (key v2 < key v1) \<and>
    op_le h1 h2 st = Inr (key v1 \<le> key v2) \<and> op_ge h1 h2 st = Inr (key v2 \<le> key v1) \<and>
    op_eq h1 h2 st = Inr (key v1 = key v2) \<and> op_ne h1 h2 st = Inr (key v1 \<noteq> key v2)"
  proof (cases v1)
    case None
    then obtain x1 where x1: "objs st h1 = Some x1" "ptr x1 = None"
      using assms(1) by (auto simp: holds_None)
    show ?thesis
    proof (cases v2)
      case None
      then obtain x2 where x2: "objs st h2 = Some x2" "ptr x2 = None"
        using assms(2) by (auto simp: holds_None)
      show ?thesis
        using x1 x2 None \<open>v1 = None\<close>
        by (simp add: op_lt_def op_gt_def op_le_def op_ge_def op_eq_def op_ne_def
            get_obj_def and_then_def key_simps)
    next
      case (Some s2)
      then obtain x2 a2 where x2: "objs st h2 = Some x2" "ptr x2 = Some a2"
        using assms(2) by (auto simp: holds_Some)
      show ?thesis
        using x1 x2 Some \<open>v1 = None\<close>
        by (simp add: op_lt_def op_gt_def op_le_def op_ge_def op_eq_def op_ne_def
            get_obj_def and_then_def key_simps)
    qed
  next
    case (Some s1)
    then obtain x1 a1 where x1: "objs st h1 = Some x1" "ptr x1 = Some a1"
      and b1: "chars st a1 = Some (map Some s1 @ [Some NUL])"
      using assms(1) by (auto simp: holds_Some)
    show ?thesis
    proof (cases v2)
      case None
      then obtain x2 where x2: "objs st h2 = Some x2" "ptr x2 = None"
        using assms(2) by (auto simp: holds_None)
      show ?thesis
        using x1 x2 None Some
        by (simp add: op_lt_def op_gt_def op_le_def op_ge_def op_eq_def op_ne_def
            get_obj_def and_then_def key_simps)
    next
      case s2: (Some s2)
      then obtain x2 a2 where x2: "objs st h2 = Some x2" "ptr x2 = Some a2"
        and b2: "chars st a2 = Some (map Some s2 @ [Some NUL])"
        using assms(2) by (auto simp: holds_Some)
      obtain r where r: "strcmp_at (Some a1) (Some a2) st = Inr r"
        and signs: "(r < 0) = (c_string s1 < c_string s2)"
          "(r = 0) = (c_string s1 = c_string s2)"
          "(0 < r) = (c_string s2 < c_string s1)" "(r \<le> 0) = (c_string s1 \<le> c_string s2)"
          "(0 \<le> r) = (c_string s2 \<le> c_string s1)"
        using strcmp_at_cstr [OF b1 b2] by blast
      have same: "c_string s1 = c_string s2" if "a1 = a2"
      proof -
        have "map Some s1 @ [Some NUL] = map Some s2 @ [Some NUL]"
          using that b1 b2 by simp
        then have "s1 = s2"
          by (simp add: inj_map_eq_map)
        then show ?thesis by simp
      qed
      show ?thesis
        using x1 x2 s2 Some r signs same
        by (auto simp: op_lt_def op_gt_def op_le_def op_ge_def op_eq_def op_ne_def
            get_obj_def and_then_def key_simps)
    qed
  qed
  then show "op_lt h1 h2 st = Inr (key v1 < key v2)"
    and "op_gt h1 h2 st = Inr (key v2 < key v1)"
    and "op_le h1 h2 st = Inr (key v1 \<le> key v2)"
    and "op_ge h1 h2 st = Inr (key v2 \<le> key v1)"
    and "op_eq h1 h2 st = Inr (key v1 = key v2)"
    and "op_ne h1 h2 st = Inr (key v1 \<noteq> key v2)"
    by auto
qed

text \<open>A handle constructed from \<open>n\<close> bytes at \<open>s\<close> is Initialized with those bytes.\<close>

lemma holds_Str_from:
  "Str_from h (Some s) n st = Inr st' \<Longrightarrow> holds st' h (Some (take n s))"
  unfolding Str_from_Inr by (auto simp: holds_def)



lemma c_string_no_NUL: "NUL \<notin> set s \<Longrightarrow> c_string s = s"
  unfolding c_string_def by (induction s) auto

lemma c_string_append_NUL: "c_string (pre @ NUL # r) = c_string pre"
  by (induction pre) (simp_all add: c_string_Cons c_string_Nil)

lemma two_constructions:
  assumes "h1 \<noteq> h2" and "Str_from h1 (Some s) n st = Inr st1"
    and "Str_from h2 (Some s') n' st1 = Inr st2"
  shows "holds st2 h1 (Some (take n s))" and "holds st2 h2 (Some (take n' s'))"
    and "c_str h1 st2 = Inr (Some (Suc (next_addr st)))"
    and "c_str h2 st2 = Inr (Some (Suc (Suc (Suc (next_addr st)))))"
    and "chars st2 (Suc (next_addr st)) = Some (map Some (take n s) @ [Some NUL])"
    and "chars st2 (Suc (Suc (Suc (next_addr st)))) = Some (map Some (take n' s') @ [Some NUL])"
  using assms unfolding Str_from_Inr
  by (auto simp: holds_def c_str_def get_obj_def and_then_def)

lemma c_string_eval:
  "c_string ''apple'' = ''apple''" "c_string ''banana'' = ''banana''"
  by (simp_all add: c_string_def NUL_def)


lemma isdigit_NUL: "\<not> isdigit NUL" and isspace_NUL: "\<not> isspace NUL"
  by (simp_all add: isdigit_def isspace_def NUL_def)

lemma NUL_not_sign: "NUL \<noteq> CHR ''-''" "NUL \<noteq> CHR ''+''"
  by (simp_all add: NUL_def)

lemma atoi_digits_cells:
  "atoi_digits acc (map Some s @ [Some NUL]) =
     Inr (foldl (\<lambda>acc c. 10 * acc + digit_val c) acc (takeWhile isdigit s))"
  by (induction s arbitrary: acc) (simp_all add: isdigit_NUL)

lemma atoi_sign_cells:
  "atoi_sign (map Some t @ [Some NUL]) =
     Inr (if negative t then - decimal (takeWhile isdigit (unsigned_part t))
          else decimal (takeWhile isdigit (unsigned_part t)))"
proof (cases t)
  case Nil
  then show ?thesis
    by (simp add: negative_def unsigned_part_def decimal_def isdigit_NUL NUL_not_sign)
next
  case (Cons c r)
  then show ?thesis
    using atoi_digits_cells [of 0 r] atoi_digits_cells [of 0 "c # r"]
    by (simp add: negative_def unsigned_part_def decimal_def and_then_def)
qed

lemma atoi_skip_cells: "atoi_skip (map Some s @ [Some NUL]) = Inr (parse_spec s)"
proof (induction s)
  case Nil
  show ?case
    using atoi_sign_cells [of "[]"] by (simp add: isspace_NUL parse_spec_def digits_def)
next
  case (Cons c s)
  show ?case
  proof (cases "isspace c")
    case True
    then show ?thesis
      using Cons.IH by (simp add: parse_spec_def digits_def)
  next
    case False
    then show ?thesis
      using atoi_sign_cells [of "c # s"] by (simp add: parse_spec_def digits_def)
  qed
qed

lemma read_cstr_cells: "read_cstr (map Some s @ [Some NUL]) = Inr (c_string s)"
  by (induction s) (simp_all add: c_string_def and_then_def)



lemma parse_to_int_holds:
  assumes "holds st h (Some s)"
  shows "parse_to_int h st =
     (if INT_MIN \<le> parse_spec s \<and> parse_spec s \<le> INT_MAX then Inr (parse_spec s)
      else Inl Unrepresentable)"
proof -
  obtain x a where "objs st h = Some x" "ptr x = Some a"
    "chars st a = Some (map Some s @ [Some NUL])"
    using assms unfolding holds_Some by blast
  then show ?thesis
    by (simp add: parse_to_int_def get_obj_def deref_chars_def and_then_def atoi_def
        atoi_skip_cells)
qed

lemma parse_spec_eval:
  "parse_spec ''42'' = 42" "parse_spec ''-7'' = - 7" "parse_spec ''abc'' = 0"
  "parse_spec '' -12ab'' = - 12"
  by (simp_all add: parse_spec_def digits_def negative_def unsigned_part_def decimal_def
      isspace_def isdigit_def digit_val_def)

lemma from_init_holds:
  "n \<le> length s \<Longrightarrow> \<exists>st. run [From h (Some s) n] init = Inr st \<and> holds st h (Some (take n s))"
proof -
  assume "n \<le> length s"
  then obtain st where st: "Str_from h (Some s) n init = Inr st"
    by (simp add: Str_from_Inr)
  then have "holds st h (Some (take n s))"
    unfolding Str_from_Inr by (auto simp: holds_def)
  then show ?thesis
    using st by (simp add: and_then_def)
qed


section \<open>Copy assignment and the release of the old buffer\<close>

text \<open>
  C1 (the code does not do this). The claim: when the target of a copy assignment
  referenced a buffer, the assignment decrements that buffer's count and, if the count
  reaches 0, frees the buffer and its counter at once. The operator decrements, but it
  never frees: with \<open>a\<close> built from \<open>"x"\<close> and \<open>b\<close> built from \<open>"y"\<close>, after \<open>a = b\<close> the
  counter of \<open>a\<close>'s old buffer (address 0) reads 0, both objects refer to \<open>b\<close>'s buffer,
  and the old counter and the old array (address 1) are still allocated. The destructor,
  on the same handle, frees both when its decrement reaches 0.
\<close>

theorem assign_leaks_old_buffer:
  "\<exists>st st'.
      run [From 0 (Some ''x'') 1, From 1 (Some ''y'') 1, Assign 0 1] init = Inr st \<and>
      ints st 0 = Some (Some 0) \<and>
      chars st 1 = Some [Some CHR ''x'', Some NUL] \<and>
      objs st 0 = Some \<lparr>ptr = Some 3, counter = Some 2\<rparr> \<and>
      objs st 1 = Some \<lparr>ptr = Some 3, counter = Some 2\<rparr> \<and>
      ref_count 0 st = Inr 2 \<and>
      run [From 0 (Some ''x'') 1, From 1 (Some ''y'') 1, Destroy 0] init = Inr st' \<and>
      ints st' 0 = None \<and> chars st' 1 = None"
  by (simp add: Str_from_def Str_assign_def Str_dtor_def new_int_def new_chars_def memcpy_def
      store_char_def store_int_def put_obj_def get_obj_def end_obj_def init_def and_then_def
      decr_def incr_def load_int_def delete_chars_def delete_int_def
      INT_MAX_def INT_MIN_def ref_count_def)

text \<open>
  C2. A handle \<open>a\<close> constructed from content has count 1, and \<open>a = a\<close> returns the very
  state it started from: the count is 1 again (it passes through 0, and nothing is freed
  there), the buffer and every object are as before. For a second handle \<open>b\<close> copied from
  \<open>a\<close> both observe count 2, and \<open>a = b\<close> as well as \<open>b = a\<close> return the state
  unchanged: the count stays 2 and no allocation is freed. The same holds in any state
  for any two objects \<open>g\<close>, \<open>h\<close> with the same pointers and count 2.
\<close>

theorem assign_self_and_aliased:
  assumes "Str_from a str len st = Inr st1"
  shows "ref_count a st1 = Inr 1 \<and> Str_assign a a st1 = Inr st1 \<and>
    (\<forall>b. b \<noteq> a \<longrightarrow>
       (\<exists>st2. Str_copy b a st1 = Inr st2 \<and>
          ref_count a st2 = Inr 2 \<and> ref_count b st2 = Inr 2 \<and>
          Str_assign a b st2 = Inr st2 \<and> Str_assign b a st2 = Inr st2)) \<and>
    (\<forall>st' g h x c. objs st' g = Some x \<and> objs st' h = Some x \<and> counter x = Some c \<and>
        ints st' c = Some (Some 2) \<longrightarrow>
        ref_count g st' = Inr 2 \<and> ref_count h st' = Inr 2 \<and> Str_assign g h st' = Inr st')"
proof -
  define c p s where "c = next_addr st" and "p = Suc (next_addr st)"
    and "s = \<lparr>ptr = Some p, counter = Some c\<rparr>"
  have cs: "counter s = Some c"
    by (simp add: s_def)
  obtain bs where st1: "st1 = st\<lparr>objs := (objs st)(a \<mapsto> s),
         chars := (chars st)(p \<mapsto> map Some (take len bs) @ [Some NUL]),
         ints := (ints st)(c \<mapsto> Some 1), next_addr := Suc (Suc (next_addr st))\<rparr>"
    using assms unfolding Str_from_Inr c_def p_def s_def by blast
  have o1: "objs st1 a = Some s" and i1: "ints st1 c = Some (Some 1)"
    by (simp_all add: st1)
  have count: "ref_count a st1 = Inr 1"
    using o1 cs i1 by (rule ref_count_shared)
  have self: "Str_assign a a st1 = Inr st1"
    using o1 o1 cs i1 by (rule assign_alias) (simp_all add: INT_MIN_def INT_MAX_def)
  have shared: "\<exists>st2. Str_copy b a st1 = Inr st2 \<and>
          ref_count a st2 = Inr 2 \<and> ref_count b st2 = Inr 2 \<and>
          Str_assign a b st2 = Inr st2 \<and> Str_assign b a st2 = Inr st2" if "b \<noteq> a" for b
  proof -
    let ?st2 = "st1\<lparr>objs := (objs st1)(b \<mapsto> s), ints := (ints st1)(c \<mapsto> Some (1 + 1))\<rparr>"
    have copy: "Str_copy b a st1 = Inr ?st2"
      using o1 cs i1 by (rule copy_shared) (simp add: INT_MAX_def)
    have oa: "objs ?st2 a = Some s" and ob: "objs ?st2 b = Some s"
      and i2: "ints ?st2 c = Some (Some 2)"
      using that o1 by simp_all
    have "ref_count a ?st2 = Inr 2" "ref_count b ?st2 = Inr 2"
      using oa ob cs i2 by (blast intro: ref_count_shared)+
    moreover have "Str_assign a b ?st2 = Inr ?st2"
      using oa ob cs i2 by (rule assign_alias) (simp_all add: INT_MIN_def INT_MAX_def)
    moreover have "Str_assign b a ?st2 = Inr ?st2"
      using ob oa cs i2 by (rule assign_alias) (simp_all add: INT_MIN_def INT_MAX_def)
    ultimately show ?thesis
      using copy by blast
  qed
  have general: "ref_count g st' = Inr 2 \<and> ref_count h st' = Inr 2 \<and>
      Str_assign g h st' = Inr st'"
    if "objs st' g = Some x" "objs st' h = Some x" "counter x = Some c"
      "ints st' c = Some (Some 2)" for st' g h x c
    using that ref_count_shared [of st' g x c 2] ref_count_shared [of st' h x c 2]
      assign_alias [of st' g x h c 2]
    by (simp add: INT_MIN_def INT_MAX_def)
  show ?thesis
    using count self shared general by blast
qed

theorem assign_self_and_aliased_witness:
  "\<exists>st1 st2.
     Str_from 0 (Some ''abc'') 3 init = Inr st1 \<and>
     ref_count 0 st1 = Inr 1 \<and> Str_assign 0 0 st1 = Inr st1 \<and>
     Str_copy 1 0 st1 = Inr st2 \<and> ref_count 0 st2 = Inr 2 \<and> ref_count 1 st2 = Inr 2 \<and>
     Str_assign 0 1 st2 = Inr st2"
proof -
  obtain st1 where st1: "Str_from 0 (Some ''abc'') 3 init = Inr st1"
    by (simp add: Str_from_Inr)
  from assign_self_and_aliased [OF st1] show ?thesis
    using st1 by (metis zero_neq_one)
qed

section \<open>The life cycle of the reference count\<close>

text \<open>
  C3. A handle \<open>h0\<close> constructed from content observes count 1. After \<open>N\<close> copies of it
  into the distinct objects \<open>hs\<close> (with \<open>N + 1\<close> a value of the counter's type \<^verbatim>\<open>int\<close>, the
  type in which \<^verbatim>\<open>ref_count()\<close> reports it), every one of the \<open>N + 1\<close> handles observes
  \<open>N + 1\<close>. Destroying any \<open>k\<close> of them, in any order \<open>ks\<close>, ends those objects and
  leaves every remaining handle observing \<open>N + 1 - k\<close>: each destruction takes exactly 1
  off the count. While a handle remains the buffer is untouched; when all \<open>N + 1\<close> are
  destroyed, the buffer (at address \<open>next_addr st + 1\<close>) and the counter (at
  \<open>next_addr st\<close>) are freed.
\<close>

theorem refcount_lifecycle:
  assumes "Str_from h0 str len st = Inr st1" and "distinct (h0 # hs)"
    and "int (length hs) < INT_MAX" and "distinct ks" and "set ks \<subseteq> set (h0 # hs)"
  shows "ref_count h0 st1 = Inr 1 \<and>
    (\<exists>st2 st3. run (map (\<lambda>h. Copy h h0) hs) st1 = Inr st2 \<and>
       (\<forall>h\<in>set (h0 # hs). ref_count h st2 = Inr (int (length hs) + 1)) \<and>
       run (map Destroy ks) st2 = Inr st3 \<and>
       (\<forall>h\<in>set ks. objs st3 h = None) \<and>
       (\<forall>h\<in>set (h0 # hs) - set ks.
           ref_count h st3 = Inr (int (length hs) + 1 - int (length ks))) \<and>
       (if set ks = set (h0 # hs)
        then chars st3 (Suc (next_addr st)) = None \<and> ints st3 (next_addr st) = None
        else chars st3 (Suc (next_addr st)) = chars st1 (Suc (next_addr st)) \<and>
             ints st3 (next_addr st) =
               Some (Some (int (length hs) + 1 - int (length ks)))))"
proof -
  define c p s where "c = next_addr st" and "p = Suc (next_addr st)"
    and "s = \<lparr>ptr = Some p, counter = Some c\<rparr>"
  have cs: "counter s = Some c" and ps: "ptr s = Some p"
    by (simp_all add: s_def)
  obtain bs where st1: "st1 = st\<lparr>objs := (objs st)(h0 \<mapsto> s),
         chars := (chars st)(p \<mapsto> map Some (take len bs) @ [Some NUL]),
         ints := (ints st)(c \<mapsto> Some 1), next_addr := Suc (Suc (next_addr st))\<rparr>"
    using assms(1) unfolding Str_from_Inr c_def p_def s_def by blast
  have o1: "objs st1 h0 = Some s" and i1: "ints st1 c = Some (Some 1)"
    and c1: "chars st1 p = Some (map Some (take len bs) @ [Some NUL])"
    by (simp_all add: st1)
  have first: "ref_count h0 st1 = Inr 1"
    using o1 cs i1 by (rule ref_count_shared)
  have "\<exists>st2. run (map (\<lambda>h. Copy h h0) hs) st1 = Inr st2 \<and>
        objs st2 = (\<lambda>h. if h \<in> set hs then Some s else objs st1 h) \<and>
        ints st2 = (ints st1)(c \<mapsto> Some (1 + int (length hs))) \<and>
        chars st2 = chars st1 \<and> next_addr st2 = next_addr st1"
    using o1 i1 assms(2,3) by (intro copies_run [OF cs]) auto
  then obtain st2 where r2: "run (map (\<lambda>h. Copy h h0) hs) st1 = Inr st2"
    and o2: "objs st2 = (\<lambda>h. if h \<in> set hs then Some s else objs st1 h)"
    and i2: "ints st2 = (ints st1)(c \<mapsto> Some (1 + int (length hs)))"
    and c2: "chars st2 = chars st1"
    by blast
  have all2: "objs st2 h = Some s" if "h \<in> set (h0 # hs)" for h
    using that o1 by (auto simp: o2)
  have v2: "ints st2 c = Some (Some (int (length hs) + 1))"
    by (simp add: i2)
  have counts2: "\<forall>h\<in>set (h0 # hs). ref_count h st2 = Inr (int (length hs) + 1)"
    using all2 cs v2 by (blast intro: ref_count_shared)
  have destroy: "\<exists>st3. run (map Destroy ks) st2 = Inr st3 \<and>
             (\<forall>h\<in>set ks. objs st3 h = None) \<and>
             (\<forall>h\<in>set (h0 # hs) - set ks.
                 ref_count h st3 = Inr (int (length hs) + 1 - int (length ks))) \<and>
             (if set ks = set (h0 # hs)
              then chars st3 p = None \<and> ints st3 c = None
              else chars st3 p = chars st1 p \<and>
                   ints st3 c = Some (Some (int (length hs) + 1 - int (length ks))))"
  proof (cases "set ks = set (h0 # hs)")
    case True
    have len: "length ks = Suc (length hs)"
      using True assms(2,4) by (metis distinct_card length_Cons)
    have "\<exists>st3. run (map Destroy ks) st2 = Inr st3 \<and>
        objs st3 = (\<lambda>h. if h \<in> set ks then None else objs st2 h) \<and>
        ints st3 = (ints st2)(c := None) \<and>
        chars st3 = (chars st2)(p := None) \<and> next_addr st3 = next_addr st2"
    proof (rule dtors_run_all [OF cs ps])
      show "\<forall>h\<in>set ks. objs st2 h = Some s" using all2 True by blast
      show "distinct ks" by (rule assms(4))
      show "ints st2 c = Some (Some (int (length ks)))" using v2 len by simp
      show "ks \<noteq> []" using len by auto
      show "chars st2 p = Some (map Some (take len bs) @ [Some NUL])" using c1 c2 by simp
    qed
    then show ?thesis
      using True by auto
  next
    case False
    have "card (set ks) < card (set (h0 # hs))"
      using False assms(5) by (intro psubset_card_mono) auto
    then have len: "length ks < Suc (length hs)"
      using assms(2,4) by (metis distinct_card length_Cons)
    have "\<exists>st3. run (map Destroy ks) st2 = Inr st3 \<and>
        objs st3 = (\<lambda>h. if h \<in> set ks then None else objs st2 h) \<and>
        ints st3 = (ints st2)(c \<mapsto> Some (int (length hs) + 1 - int (length ks))) \<and>
        chars st3 = chars st2 \<and> next_addr st3 = next_addr st2"
    proof (rule dtors_run [OF cs])
      show "\<forall>h\<in>set ks. objs st2 h = Some s" using all2 assms(5) by blast
      show "distinct ks" by (rule assms(4))
      show "ints st2 c = Some (Some (int (length hs) + 1))" by (rule v2)
      show "int (length ks) < int (length hs) + 1" using len by simp
    qed
    then obtain st3 where r3: "run (map Destroy ks) st2 = Inr st3"
      and o3: "objs st3 = (\<lambda>h. if h \<in> set ks then None else objs st2 h)"
      and i3: "ints st3 = (ints st2)(c \<mapsto> Some (int (length hs) + 1 - int (length ks)))"
      and c3: "chars st3 = chars st2"
      by blast
    have gone: "\<forall>h\<in>set ks. objs st3 h = None"
      by (simp add: o3)
    have rest: "\<forall>h\<in>set (h0 # hs) - set ks.
        ref_count h st3 = Inr (int (length hs) + 1 - int (length ks))"
    proof
      fix h assume h: "h \<in> set (h0 # hs) - set ks"
      then have "objs st3 h = Some s"
        using all2 [of h] by (simp add: o3)
      moreover have "ints st3 c = Some (Some (int (length hs) + 1 - int (length ks)))"
        by (simp add: i3)
      ultimately show "ref_count h st3 = Inr (int (length hs) + 1 - int (length ks))"
        using cs by (blast intro: ref_count_shared)
    qed
    have "chars st3 p = chars st1 p"
      by (simp add: c3 c2)
    moreover have "ints st3 c = Some (Some (int (length hs) + 1 - int (length ks)))"
      by (simp add: i3)
    ultimately show ?thesis
      using False r3 gone rest by auto
  qed
  show ?thesis
    using first r2 counts2 destroy unfolding c_def p_def by blast
qed

theorem refcount_lifecycle_witness:
  "\<exists>st1 st2 st3 st4.
     Str_from 0 (Some ''hello'') 5 init = Inr st1 \<and> ref_count 0 st1 = Inr 1 \<and>
     run [Copy 1 0, Copy 2 0] st1 = Inr st2 \<and>
     ref_count 0 st2 = Inr 3 \<and> ref_count 1 st2 = Inr 3 \<and> ref_count 2 st2 = Inr 3 \<and>
     run [Destroy 2] st2 = Inr st3 \<and> ref_count 0 st3 = Inr 2 \<and> ref_count 1 st3 = Inr 2 \<and>
     run [Destroy 2, Destroy 0, Destroy 1] st2 = Inr st4 \<and>
     chars st4 1 = None \<and> ints st4 0 = None"
proof -
  obtain st1 where st1: "Str_from 0 (Some ''hello'') 5 init = Inr st1"
    by (simp add: Str_from_Inr)
  have d: "distinct (0 # [1, 2 :: nat])" and b: "int (length [1, 2 :: nat]) < INT_MAX"
    by (simp_all add: INT_MAX_def)
  have "distinct [2 :: nat]" "set [2] \<subseteq> set (0 # [1, 2 :: nat])"
    by simp_all
  note one = refcount_lifecycle [OF st1 d b this]
  have "distinct [2, 0, 1 :: nat]" "set [2, 0, 1] \<subseteq> set (0 # [1, 2 :: nat])"
    by simp_all
  note all = refcount_lifecycle [OF st1 d b this]
  have e: "set [2, 0, 1 :: nat] = set (0 # [1, 2])"
    by auto
  from one all [unfolded e] st1 show ?thesis
    by (auto simp: init_def)
qed

section \<open>The validity predicate\<close>

text \<open>
  C4. In every state a program reaches, \<^verbatim>\<open>valid()\<close> on a live handle returns true exactly
  when the handle is Uninitialized (it has no buffer, and then no counter either). A
  default-constructed handle is Uninitialized and \<^verbatim>\<open>valid()\<close> is true for it; a handle
  constructed from content is not, and \<^verbatim>\<open>valid()\<close> is false for it.
\<close>

theorem valid_iff_uninitialized:
  assumes "run prog init = Inr st" and "objs st h = Some x"
  shows "valid h st = Inr (holds st h None) \<and>
    holds st h None = (ptr x = None \<and> counter x = None) \<and>
    (\<exists>st'. Str_default g st = Inr st' \<and> valid g st' = Inr True \<and> holds st' g None) \<and>
    (\<forall>str len st'. Str_from g str len st = Inr st' \<longrightarrow>
        valid g st' = Inr False \<and> \<not> holds st' g None)"
proof -
  have "paired st"
    using reachable_invariants [OF assms(1)] by blast
  then have px: "(ptr x = None) = (counter x = None)"
    using assms(2) unfolding paired_def by blast
  have v: "valid h st = Inr (holds st h None)"
    using assms(2) px by (simp add: valid_def holds_def get_obj_def and_then_def)
  have u: "holds st h None = (ptr x = None \<and> counter x = None)"
    using assms(2) px by (simp add: holds_def)
  have d: "\<exists>st'. Str_default g st = Inr st' \<and> valid g st' = Inr True \<and> holds st' g None"
    by (simp add: Str_default_def put_obj_def valid_def holds_def get_obj_def and_then_def)
  have f: "valid g st' = Inr False \<and> \<not> holds st' g None"
    if "Str_from g str len st = Inr st'" for str len st'
    using that unfolding Str_from_Inr
    by (auto simp: valid_def holds_def get_obj_def and_then_def)
  show ?thesis
    using v u d f by blast
qed

theorem valid_iff_uninitialized_witness:
  "\<exists>st. run [Default 0, From 1 (Some ''abc'') 3, Copy 2 1, Copy 3 0] init = Inr st \<and>
     valid 3 st = Inr True \<and> holds st 3 None \<and>
     valid 2 st = Inr False \<and> \<not> holds st 2 None"
proof -
  have "\<exists>st. run [Default 0, From 1 (Some ''abc'') 3, Copy 2 1, Copy 3 0] init = Inr st \<and>
     objs st 3 = Some \<lparr>ptr = None, counter = None\<rparr> \<and>
     objs st 2 = Some \<lparr>ptr = Some 1, counter = Some 0\<rparr>"
    by (simp add: Str_default_def Str_from_def Str_copy_def new_int_def new_chars_def
        memcpy_def store_char_def store_int_def put_obj_def get_obj_def init_def and_then_def
        incr_def load_int_def INT_MAX_def)
  then obtain st
    where r: "run [Default 0, From 1 (Some ''abc'') 3, Copy 2 1, Copy 3 0] init = Inr st"
      and o3: "objs st 3 = Some \<lparr>ptr = None, counter = None\<rparr>"
      and o2: "objs st 2 = Some \<lparr>ptr = Some 1, counter = Some 0\<rparr>"
    by blast
  from valid_iff_uninitialized [OF r o3] valid_iff_uninitialized [OF r o2] r
  show ?thesis
    by (intro exI [of _ st]) simp
qed


section \<open>Construction from content\<close>

text \<open>
  C7. In every state a program reaches, constructing a handle from a non-null pointer to
  the bytes \<open>s\<close> (whatever memory \<open>rest\<close> follows them) and the length of \<open>s\<close> succeeds.
  The pointer \<^verbatim>\<open>c_str()\<close> returns is the address of a buffer that was not allocated
  before; the buffer has \<open>length s + 1\<close> bytes and reads as \<open>s\<close> followed by the zero
  terminator. Whatever program runs afterwards, the buffer holds the same bytes for as
  long as it is allocated, and it is allocated for as long as any object points to it:
  every handle that refers to the buffer reads the bytes it was constructed with.
\<close>

theorem construct_roundtrip:
  assumes "run prog init = Inr st"
  shows "\<exists>st1 p. Str_from h (Some (s @ rest)) (length s) st = Inr st1 \<and>
      c_str h st1 = Inr (Some p) \<and>
      chars st p = None \<and>
      deref_chars (Some p) st1 = Inr (map Some (s @ [NUL])) \<and>
      map_option length (chars st1 p) = Some (length s + 1) \<and>
      (\<forall>prog' st2. run prog' st1 = Inr st2 \<longrightarrow>
          (chars st2 p = chars st1 p \<or> chars st2 p = None) \<and>
          (\<forall>g x. objs st2 g = Some x \<and> ptr x = Some p \<longrightarrow> chars st2 p = chars st1 p))"
proof -
  define p where "p = Suc (next_addr st)"
  define st1 where "st1 = st\<lparr>objs := (objs st)(h \<mapsto> \<lparr>ptr = Some p, counter = Some (next_addr st)\<rparr>),
         chars := (chars st)(p \<mapsto> map Some (take (length s) (s @ rest)) @ [Some NUL]),
         ints := (ints st)(next_addr st \<mapsto> Some 1), next_addr := Suc (Suc (next_addr st))\<rparr>"
  have fr: "fresh_above st"
    using reachable_invariants [OF assms] by blast
  have mk: "Str_from h (Some (s @ rest)) (length s) st = Inr st1"
    unfolding Str_from_Inr st1_def p_def by simp
  have ex: "exec (From h (Some (s @ rest)) (length s)) st = Inr st1"
    using mk by simp
  have fr1: "fresh_above st1"
    using exec_frame(2) [OF ex fr] .
  have "c_str h st1 = Inr (Some p)"
    by (simp add: c_str_def get_obj_def and_then_def st1_def)
  moreover have "chars st p = None"
    using fr by (simp add: fresh_above_def p_def)
  moreover have "deref_chars (Some p) st1 = Inr (map Some (s @ [NUL]))"
    by (simp add: deref_chars_def st1_def)
  moreover have "map_option length (chars st1 p) = Some (length s + 1)"
    by (simp add: st1_def)
  moreover have "(chars st2 p = chars st1 p \<or> chars st2 p = None) \<and>
      (\<forall>g x. objs st2 g = Some x \<and> ptr x = Some p \<longrightarrow> chars st2 p = chars st1 p)"
    if r: "run prog' st1 = Inr st2" for prog' st2
  proof -
    have im: "chars st2 p = chars st1 p \<or> chars st2 p = None"
      using r fr1 by (rule run_immutable) (simp add: st1_def p_def)
    have "sound st1"
      using reachable_sound [OF assms] ex by (rule sound_exec)
    then have s2: "sound st2"
      using r by (rule sound_run [rotated])
    have alive: "chars st2 p \<noteq> None" if "objs st2 g = Some x" "ptr x = Some p" for g x
    proof -
      have "handle_ok st2 x"
        using s2 that(1) unfolding sound_def by blast
      then show ?thesis
        using that(2) by (cases "counter x") (auto simp: handle_ok_def)
    qed
    show ?thesis
      using im alive by blast
  qed
  ultimately show ?thesis
    using mk by blast
qed

theorem construct_roundtrip_witness:
  "\<exists>st1 st2. Str_from 0 (Some ''hi'') 2 init = Inr st1 \<and> c_str 0 st1 = Inr (Some 1) \<and>
     deref_chars (Some 1) st1 = Inr [Some CHR ''h'', Some CHR ''i'', Some NUL] \<and>
     run [Copy 1 0, Destroy 0] st1 = Inr st2 \<and>
     chars st2 1 = Some [Some CHR ''h'', Some CHR ''i'', Some NUL]"
proof -
  have r0: "run [] init = Inr init"
    by simp
  from construct_roundtrip [OF r0, of 0 "''hi''" "[]"]
  obtain st1 p where mk: "Str_from 0 (Some ''hi'') 2 init = Inr st1"
    and p: "c_str 0 st1 = Inr (Some p)"
    and rd: "deref_chars (Some p) st1 = Inr [Some CHR ''h'', Some CHR ''i'', Some NUL]"
    by (auto simp: numeral_2_eq_2)
  have p1: "p = 1"
    using mk p unfolding Str_from_Inr
    by (auto simp: c_str_def get_obj_def and_then_def init_def)
  have "\<exists>st2. run [Copy 1 0, Destroy 0] st1 = Inr st2 \<and>
     chars st2 1 = Some [Some CHR ''h'', Some CHR ''i'', Some NUL]"
    using mk unfolding Str_from_Inr
    by (auto simp: Str_copy_def Str_dtor_def get_obj_def put_obj_def end_obj_def and_then_def
        incr_def decr_def load_int_def store_int_def init_def INT_MAX_def INT_MIN_def)
  then show ?thesis
    using mk p rd p1 by auto
qed

section \<open>The comparison operators\<close>

text \<open>
  C5, as the code has it. Let \<open>h1\<close>, \<open>h2\<close>, \<open>h3\<close> be handles that are Uninitialized or
  hold the contents \<open>v1\<close>, \<open>v2\<close>, \<open>v3\<close>. The six operators compute \<open><\<close>, \<open>>\<close>, \<open>\<le>\<close>,
  \<open>\<ge>\<close>, \<open>=\<close> and \<open>\<noteq>\<close> of one linear order on the handles' keys: an Uninitialized handle
  lies strictly below every Initialized one, two Uninitialized handles are neither \<open><\<close>
  nor \<open>>\<close> but both \<open>\<le>\<close> and \<open>\<ge>\<close>, and two Initialized handles are ordered
  lexicographically, byte by byte as unsigned values, by their contents up to the first
  zero byte; where neither content has a zero byte that is the lexicographic order of
  the contents themselves. \<open><\<close> is transitive, and exactly one of \<open><\<close>, \<open>==\<close>, \<open>>\<close> holds.
  Every live handle of a state that a program reaches is Uninitialized or holds some
  content, so the order covers all of them.
\<close>

theorem comparisons_order_by_c_string:
  assumes "holds st h1 v1" and "holds st h2 v2" and "holds st h3 v3"
  shows "op_lt h1 h2 st = Inr (key v1 < key v2) \<and>
    op_gt h1 h2 st = Inr (key v2 < key v1) \<and>
    op_le h1 h2 st = Inr (key v1 \<le> key v2) \<and>
    op_ge h1 h2 st = Inr (key v2 \<le> key v1) \<and>
    op_eq h1 h2 st = Inr (key v1 = key v2) \<and>
    op_ne h1 h2 st = Inr (key v1 \<noteq> key v2) \<and>
    (op_lt h1 h2 st = Inr True \<and> op_lt h2 h3 st = Inr True \<longrightarrow> op_lt h1 h3 st = Inr True) \<and>
    (op_lt h1 h2 st = Inr True \<or> op_eq h1 h2 st = Inr True \<or> op_gt h1 h2 st = Inr True) \<and>
    \<not> (op_lt h1 h2 st = Inr True \<and> op_eq h1 h2 st = Inr True) \<and>
    \<not> (op_lt h1 h2 st = Inr True \<and> op_gt h1 h2 st = Inr True) \<and>
    \<not> (op_eq h1 h2 st = Inr True \<and> op_gt h1 h2 st = Inr True) \<and>
    (v1 = None \<and> v2 \<noteq> None \<longrightarrow>
       op_lt h1 h2 st = Inr True \<and> op_gt h2 h1 st = Inr True \<and>
       op_ge h1 h2 st = Inr False \<and> op_le h2 h1 st = Inr False) \<and>
    (v1 = None \<and> v2 = None \<longrightarrow>
       op_lt h1 h2 st = Inr False \<and> op_gt h1 h2 st = Inr False \<and>
       op_le h1 h2 st = Inr True \<and> op_ge h1 h2 st = Inr True) \<and>
    (\<forall>s1 s2. v1 = Some s1 \<and> v2 = Some s2 \<longrightarrow>
       op_lt h1 h2 st = Inr (c_string s1 < c_string s2) \<and>
       (NUL \<notin> set s1 \<and> NUL \<notin> set s2 \<longrightarrow> op_lt h1 h2 st = Inr (s1 < s2))) \<and>
    (\<forall>prog g x. run prog init = Inr st \<and> objs st g = Some x \<longrightarrow> (\<exists>v. holds st g v))"
proof -
  note c12 = compare_holds [OF assms(1,2)]
  note c21 = compare_holds [OF assms(2,1)]
  note c23 = compare_holds [OF assms(2,3)]
  note c13 = compare_holds [OF assms(1,3)]
  have six: "op_lt h1 h2 st = Inr (key v1 < key v2) \<and>
    op_gt h1 h2 st = Inr (key v2 < key v1) \<and>
    op_le h1 h2 st = Inr (key v1 \<le> key v2) \<and>
    op_ge h1 h2 st = Inr (key v2 \<le> key v1) \<and>
    op_eq h1 h2 st = Inr (key v1 = key v2) \<and>
    op_ne h1 h2 st = Inr (key v1 \<noteq> key v2)"
    using c12 by simp
  have trans: "op_lt h1 h2 st = Inr True \<and> op_lt h2 h3 st = Inr True \<longrightarrow>
      op_lt h1 h3 st = Inr True"
    unfolding c12 c23 c13 by auto
  have tri: "(op_lt h1 h2 st = Inr True \<or> op_eq h1 h2 st = Inr True \<or> op_gt h1 h2 st = Inr True) \<and>
    \<not> (op_lt h1 h2 st = Inr True \<and> op_eq h1 h2 st = Inr True) \<and>
    \<not> (op_lt h1 h2 st = Inr True \<and> op_gt h1 h2 st = Inr True) \<and>
    \<not> (op_eq h1 h2 st = Inr True \<and> op_gt h1 h2 st = Inr True)"
    unfolding c12 by auto
  have un: "v1 = None \<and> v2 \<noteq> None \<longrightarrow>
       op_lt h1 h2 st = Inr True \<and> op_gt h2 h1 st = Inr True \<and>
       op_ge h1 h2 st = Inr False \<and> op_le h2 h1 st = Inr False"
    unfolding c12 c21 by (auto simp: key_simps)
  have uu: "v1 = None \<and> v2 = None \<longrightarrow>
       op_lt h1 h2 st = Inr False \<and> op_gt h1 h2 st = Inr False \<and>
       op_le h1 h2 st = Inr True \<and> op_ge h1 h2 st = Inr True"
    unfolding c12 by (auto simp: key_simps)
  have ii: "\<forall>s1 s2. v1 = Some s1 \<and> v2 = Some s2 \<longrightarrow>
       op_lt h1 h2 st = Inr (c_string s1 < c_string s2) \<and>
       (NUL \<notin> set s1 \<and> NUL \<notin> set s2 \<longrightarrow> op_lt h1 h2 st = Inr (s1 < s2))"
    unfolding c12 by (auto simp: key_simps c_string_no_NUL)
  have all: "\<forall>prog g x. run prog init = Inr st \<and> objs st g = Some x \<longrightarrow> (\<exists>v. holds st g v)"
    using reachable_holds by blast
  show ?thesis
    using six trans tri un uu ii all by blast
qed

theorem comparisons_order_by_c_string_witness:
  "\<exists>st. run [Default 0, From 1 (Some ''apple'') 5, From 2 (Some ''banana'') 6] init = Inr st \<and>
     holds st 0 None \<and> holds st 1 (Some ''apple'') \<and> holds st 2 (Some ''banana'') \<and>
     op_lt 0 1 st = Inr True \<and> op_lt 1 2 st = Inr True \<and> op_lt 0 2 st = Inr True \<and>
     op_gt 2 1 st = Inr True \<and> op_le 1 2 st = Inr True \<and> op_ge 1 2 st = Inr False \<and>
     op_eq 1 2 st = Inr False \<and> op_ne 1 2 st = Inr True"
proof -
  have "\<exists>st. run [Default 0, From 1 (Some ''apple'') 5, From 2 (Some ''banana'') 6] init = Inr st \<and>
     holds st 0 None \<and> holds st 1 (Some ''apple'') \<and> holds st 2 (Some ''banana'')"
    by (simp add: Str_default_def Str_from_def new_int_def new_chars_def memcpy_def
        store_char_def store_int_def put_obj_def init_def and_then_def holds_def)
  then obtain st
    where r: "run [Default 0, From 1 (Some ''apple'') 5, From 2 (Some ''banana'') 6] init = Inr st"
      and h0: "holds st 0 None" and h1: "holds st 1 (Some ''apple'')"
      and h2: "holds st 2 (Some ''banana'')"
    by blast
  have lt: "''apple'' < ''banana''"
    by simp
  from comparisons_order_by_c_string [OF h0 h1 h2] comparisons_order_by_c_string [OF h1 h2 h0]
    comparisons_order_by_c_string [OF h2 h1 h0] r h0 h1 h2 lt
  show ?thesis
    by (intro exI [of _ st]) (simp add: key_simps c_string_eval)
qed

text \<open>
  The claim as it was stated orders two Initialized handles by the lexicographic order
  of their contents. The contents \<open>a\<close>, zero, \<open>b\<close> and \<open>a\<close>, zero, \<open>c\<close> are in that order,
  yet \<^verbatim>\<open>operator<\<close> answers false: \<^verbatim>\<open>strcmp\<close> stops at the zero byte.
\<close>

theorem content_order_counterexample:
  "and_then (run [From 0 (Some [CHR ''a'', NUL, CHR ''b'']) 3,
                  From 1 (Some [CHR ''a'', NUL, CHR ''c'']) 3] init) (op_lt 0 1) = Inr False \<and>
   [CHR ''a'', NUL, CHR ''b''] < [CHR ''a'', NUL, CHR ''c'']"
  by (simp add: Str_from_def new_int_def new_chars_def memcpy_def
        store_char_def store_int_def put_obj_def init_def and_then_def
        op_lt_def get_obj_def strcmp_at_def deref_chars_def NUL_def)

section \<open>Equality\<close>

text \<open>
  C6. Every live handle equals itself, Uninitialized or not (the pointers are identical).
  Two handles constructed one after the other from equal content compare equal with
  \<^verbatim>\<open>==\<close>, and not unequal with \<^verbatim>\<open>!=\<close>, although \<^verbatim>\<open>c_str()\<close> returns different addresses for
  them. If one handle is Uninitialized and the other is not, \<^verbatim>\<open>==\<close> is false and \<^verbatim>\<open>!=\<close> is
  true, in both argument orders. In any state, two Initialized handles with the same
  content compare equal, in one allocation or in two.
\<close>

theorem equality_reflexive_and_by_content:
  "(objs st h = Some x \<longrightarrow> op_eq h h st = Inr True \<and> op_ne h h st = Inr False) \<and>
   (h1 \<noteq> h2 \<and> Str_from h1 (Some s) n st = Inr st1 \<and>
    Str_from h2 (Some s') n' st1 = Inr st2 \<and> take n s = take n' s' \<longrightarrow>
      op_eq h1 h2 st2 = Inr True \<and> op_eq h2 h1 st2 = Inr True \<and>
      op_ne h1 h2 st2 = Inr False \<and> op_ne h2 h1 st2 = Inr False \<and>
      c_str h1 st2 \<noteq> c_str h2 st2) \<and>
   (objs st u = Some xu \<and> ptr xu = None \<and> objs st i = Some xi \<and> ptr xi \<noteq> None \<longrightarrow>
      op_eq u i st = Inr False \<and> op_eq i u st = Inr False \<and>
      op_ne u i st = Inr True \<and> op_ne i u st = Inr True) \<and>
   (holds st a (Some t) \<and> holds st b (Some t) \<longrightarrow>
      op_eq a b st = Inr True \<and> op_ne a b st = Inr False)"
proof -
  have refl: "op_eq h h st = Inr True \<and> op_ne h h st = Inr False" if "objs st h = Some x"
    using that by (simp add: op_eq_def op_ne_def get_obj_def and_then_def)
  have content: "op_eq h1 h2 st2 = Inr True \<and> op_eq h2 h1 st2 = Inr True \<and>
      op_ne h1 h2 st2 = Inr False \<and> op_ne h2 h1 st2 = Inr False \<and>
      c_str h1 st2 \<noteq> c_str h2 st2"
    if "h1 \<noteq> h2" and a: "Str_from h1 (Some s) n st = Inr st1"
      and b: "Str_from h2 (Some s') n' st1 = Inr st2" and eq: "take n s = take n' s'"
  proof -
    note t = two_constructions [OF \<open>h1 \<noteq> h2\<close> a b]
    show ?thesis
      using compare_holds(5,6) [OF t(1,2)] compare_holds(5,6) [OF t(2,1)] t(3,4) eq
      by simp
  qed
  have mixed: "op_eq u i st = Inr False \<and> op_eq i u st = Inr False \<and>
      op_ne u i st = Inr True \<and> op_ne i u st = Inr True"
    if "objs st u = Some xu" "ptr xu = None" "objs st i = Some xi" "ptr xi \<noteq> None"
    using that by (auto simp: op_eq_def op_ne_def get_obj_def and_then_def)
  have equal: "op_eq a b st = Inr True \<and> op_ne a b st = Inr False"
    if "holds st a (Some t)" "holds st b (Some t)"
    using compare_holds(5,6) [OF that] by simp
  show ?thesis
    using refl content mixed equal by blast
qed

theorem equality_reflexive_and_by_content_witness:
  "\<exists>st st1 st2.
     run [Default 0, From 1 (Some ''q'') 1] init = Inr st \<and>
     op_eq 0 0 st = Inr True \<and> op_ne 0 0 st = Inr False \<and> op_eq 1 1 st = Inr True \<and>
     Str_from 2 (Some ''abc'') 3 st = Inr st1 \<and> Str_from 3 (Some ''abcd'') 3 st1 = Inr st2 \<and>
     op_eq 2 3 st2 = Inr True \<and> op_ne 2 3 st2 = Inr False \<and> c_str 2 st2 \<noteq> c_str 3 st2 \<and>
     op_eq 0 1 st = Inr False \<and> op_ne 0 1 st = Inr True \<and> op_ne 1 0 st = Inr True"
proof -
  have "\<exists>st. run [Default 0, From 1 (Some ''q'') 1] init = Inr st \<and>
     objs st 0 = Some \<lparr>ptr = None, counter = None\<rparr> \<and>
     objs st 1 = Some \<lparr>ptr = Some 1, counter = Some 0\<rparr>"
    by (simp add: Str_default_def Str_from_def new_int_def new_chars_def memcpy_def
        store_char_def store_int_def put_obj_def init_def and_then_def)
  then obtain st where r: "run [Default 0, From 1 (Some ''q'') 1] init = Inr st"
    and o0: "objs st 0 = Some \<lparr>ptr = None, counter = None\<rparr>"
    and o1: "objs st 1 = Some \<lparr>ptr = Some 1, counter = Some 0\<rparr>"
    by blast
  obtain st1 where a: "Str_from 2 (Some ''abc'') 3 st = Inr st1"
    by (simp add: Str_from_Inr)
  obtain st2 where b: "Str_from 3 (Some ''abcd'') 3 st1 = Inr st2"
    by (simp add: Str_from_Inr)
  have ne: "(2 :: nat) \<noteq> 3" and tk: "take 3 ''abc'' = take 3 ''abcd''"
    by simp_all
  from equality_reflexive_and_by_content
    [of st 0 "\<lparr>ptr = None, counter = None\<rparr>" 2 3 "''abc''" 3 st1 "''abcd''" 3 st2
      0 "\<lparr>ptr = None, counter = None\<rparr>" 1 "\<lparr>ptr = Some 1, counter = Some 0\<rparr>"]
    equality_reflexive_and_by_content
    [of st 1 "\<lparr>ptr = Some 1, counter = Some 0\<rparr>" 0 0 "[]" 0 st "[]" 0 st
      0 "\<lparr>ptr = None, counter = None\<rparr>" 0 "\<lparr>ptr = None, counter = None\<rparr>"]
    r o0 o1 a b ne tk
  show ?thesis
    by (intro exI [of _ st] exI [of _ st1] exI [of _ st2]) simp
qed

text \<open>
  C10. Two byte sequences that agree up to and including a zero byte (\<open>pre\<close>, zero) and
  differ after it (\<open>r1 \<noteq> r2\<close>), each constructed with its full length: the two handles
  compare equal with \<^verbatim>\<open>==\<close> and not unequal with \<^verbatim>\<open>!=\<close>, while the buffers behind
  \<^verbatim>\<open>c_str()\<close> hold the two different sequences.
\<close>

theorem equality_stops_at_zero:
  assumes "h1 \<noteq> h2" and "r1 \<noteq> r2"
  shows "\<exists>st1 st2 p1 p2.
      Str_from h1 (Some (pre @ NUL # r1)) (length (pre @ NUL # r1)) st = Inr st1 \<and>
      Str_from h2 (Some (pre @ NUL # r2)) (length (pre @ NUL # r2)) st1 = Inr st2 \<and>
      op_eq h1 h2 st2 = Inr True \<and> op_ne h1 h2 st2 = Inr False \<and>
      c_str h1 st2 = Inr (Some p1) \<and> c_str h2 st2 = Inr (Some p2) \<and>
      deref_chars (Some p1) st2 = Inr (map Some (pre @ NUL # r1 @ [NUL])) \<and>
      deref_chars (Some p2) st2 = Inr (map Some (pre @ NUL # r2 @ [NUL])) \<and>
      deref_chars (Some p1) st2 \<noteq> deref_chars (Some p2) st2"
proof -
  obtain st1 where a: "Str_from h1 (Some (pre @ NUL # r1)) (length (pre @ NUL # r1)) st = Inr st1"
    by (simp add: Str_from_Inr)
  obtain st2 where b: "Str_from h2 (Some (pre @ NUL # r2)) (length (pre @ NUL # r2)) st1 = Inr st2"
    by (simp add: Str_from_Inr)
  note t = two_constructions [OF assms(1) a b]
  have eq: "op_eq h1 h2 st2 = Inr True" and ne: "op_ne h1 h2 st2 = Inr False"
    using compare_holds(5,6) [OF t(1,2)] by (simp_all add: key_simps c_string_append_NUL)
  have d1: "deref_chars (Some (Suc (next_addr st))) st2 = Inr (map Some (pre @ NUL # r1 @ [NUL]))"
    using t(5) by (simp add: deref_chars_def)
  have d2: "deref_chars (Some (Suc (Suc (Suc (next_addr st))))) st2 =
      Inr (map Some (pre @ NUL # r2 @ [NUL]))"
    using t(6) by (simp add: deref_chars_def)
  have "map Some (pre @ NUL # r1 @ [NUL]) \<noteq> map Some (pre @ NUL # r2 @ [NUL])"
    using assms(2) by (simp add: inj_map_eq_map)
  then have "deref_chars (Some (Suc (next_addr st))) st2 \<noteq>
      deref_chars (Some (Suc (Suc (Suc (next_addr st))))) st2"
    unfolding d1 d2 by simp
  then show ?thesis
    using a b eq ne t(3,4) d1 d2 by blast
qed

theorem equality_stops_at_zero_witness:
  "\<exists>st1 st2.
      Str_from 0 (Some [CHR ''a'', NUL, CHR ''b'']) 3 init = Inr st1 \<and>
      Str_from 1 (Some [CHR ''a'', NUL, CHR ''c'', CHR ''d'']) 4 st1 = Inr st2 \<and>
      op_eq 0 1 st2 = Inr True \<and> op_ne 0 1 st2 = Inr False \<and>
      deref_chars (Some 1) st2 = Inr (map Some [CHR ''a'', NUL, CHR ''b'', NUL]) \<and>
      deref_chars (Some 3) st2 = Inr (map Some [CHR ''a'', NUL, CHR ''c'', CHR ''d'', NUL])"
proof -
  have ne: "(0 :: nat) \<noteq> 1" and rs: "[CHR ''b''] \<noteq> [CHR ''c'', CHR ''d'']"
    by simp_all
  from equality_stops_at_zero [OF ne rs, of "[CHR ''a'']" init]
  obtain st1 st2 p1 p2
    where a: "Str_from 0 (Some [CHR ''a'', NUL, CHR ''b'']) 3 init = Inr st1"
      and b: "Str_from 1 (Some [CHR ''a'', NUL, CHR ''c'', CHR ''d'']) 4 st1 = Inr st2"
      and e: "op_eq 0 1 st2 = Inr True" "op_ne 0 1 st2 = Inr False"
      and p: "c_str 0 st2 = Inr (Some p1)" "c_str 1 st2 = Inr (Some p2)"
      and d: "deref_chars (Some p1) st2 = Inr (map Some [CHR ''a'', NUL, CHR ''b'', NUL])"
        "deref_chars (Some p2) st2 = Inr (map Some [CHR ''a'', NUL, CHR ''c'', CHR ''d'', NUL])"
    by (auto simp: eval_nat_numeral)
  have "p1 = 1" "p2 = 3"
    using two_constructions(3,4) [OF ne a b] p by (simp_all add: init_def)
  then show ?thesis
    using a b e d by blast
qed

section \<open>Textual rendering\<close>

text \<open>
  C9, as the code has it. \<^verbatim>\<open>operator<<\<close> on an Initialized handle appends to the stream
  the content up to the first zero byte, which is the whole content when it has no zero
  byte; on an Uninitialized handle it succeeds and leaves the stream as it was. On a live
  handle of a state that a program reaches it never fails.
\<close>

theorem render_c_string:
  "(holds st h (Some s) \<longrightarrow> op_shl os h st = Inr (os @ c_string s)) \<and>
   (holds st h (Some s) \<and> NUL \<notin> set s \<longrightarrow> op_shl os h st = Inr (os @ s)) \<and>
   (holds st h None \<longrightarrow> op_shl os h st = Inr os) \<and>
   (run prog init = Inr st \<and> objs st h = Some x \<longrightarrow> (\<exists>w. op_shl os h st = Inr (os @ w)))"
proof -
  have i: "op_shl os h st = Inr (os @ c_string s)" if hs: "holds st h (Some s)" for s
  proof -
    obtain x a where "objs st h = Some x" "ptr x = Some a"
      "chars st a = Some (map Some s @ [Some NUL])"
      using hs unfolding holds_Some by blast
    then show ?thesis
      by (simp add: op_shl_def write_cstr_def get_obj_def deref_chars_def and_then_def
          read_cstr_cells)
  qed
  have n: "c_string s = s" if "NUL \<notin> set s"
    using that unfolding c_string_def by (induction s) auto
  have u: "op_shl os h st = Inr os" if "holds st h None"
    using that unfolding holds_None
    by (auto simp: op_shl_def get_obj_def and_then_def)
  have tot: "\<exists>w. op_shl os h st = Inr (os @ w)"
    if r: "run prog init = Inr st" and o: "objs st h = Some x"
  proof -
    obtain v where v: "holds st h v"
      using reachable_holds [OF r o] by blast
    show ?thesis
    proof (cases v)
      case None
      then have "op_shl os h st = Inr (os @ [])"
        using u v by simp
      then show ?thesis ..
    next
      case (Some s')
      then have "op_shl os h st = Inr (os @ c_string s')"
        using v by (intro i) simp
      then show ?thesis ..
    qed
  qed
  show ?thesis
    using i n u tot by auto
qed

theorem render_c_string_witness:
  "\<exists>st. run [Default 0, From 1 (Some ''hello'') 5] init = Inr st \<and>
     holds st 0 None \<and> holds st 1 (Some ''hello'') \<and>
     op_shl ''> '' 0 st = Inr ''> '' \<and> op_shl ''> '' 1 st = Inr ''> hello''"
proof -
  have "\<exists>st. run [Default 0, From 1 (Some ''hello'') 5] init = Inr st \<and>
     holds st 0 None \<and> holds st 1 (Some ''hello'')"
    by (simp add: Str_default_def Str_from_def new_int_def new_chars_def memcpy_def
        store_char_def store_int_def put_obj_def init_def and_then_def holds_def)
  then obtain st where r: "run [Default 0, From 1 (Some ''hello'') 5] init = Inr st"
    and h0: "holds st 0 None" and h1: "holds st 1 (Some ''hello'')"
    by blast
  have nz: "NUL \<notin> set ''hello''"
    by (simp add: NUL_def)
  from render_c_string [of st 0 "''hello''" "''> ''"] render_c_string [of st 1 "''hello''" "''> ''"]
    r h0 h1 nz
  show ?thesis
    by (intro exI [of _ st]) (simp add: c_string_def NUL_def)
qed

text \<open>
  The claim as it was stated has the full content written. For the content \<open>a\<close>, zero,
  \<open>b\<close> the output is \<open>a\<close> alone.
\<close>

theorem render_full_content_counterexample:
  "and_then (run [From 0 (Some [CHR ''a'', NUL, CHR ''b'']) 3] init) (op_shl [] 0) = Inr ''a'' \<and>
   ''a'' \<noteq> [CHR ''a'', NUL, CHR ''b'']"
  by (simp add: Str_from_def new_int_def new_chars_def memcpy_def
        store_char_def store_int_def put_obj_def init_def and_then_def
        op_shl_def write_cstr_def get_obj_def deref_chars_def NUL_def)

section \<open>Parsing as an integer\<close>

text \<open>
  C8. For an Initialized handle with content \<open>s\<close>, \<^verbatim>\<open>parse_to_int()\<close> returns the decimal
  integer the spec reads from \<open>s\<close> (leading white space skipped, an optional sign, the
  digits up to the first character that is not a digit), provided an \<^verbatim>\<open>int\<close> can hold it;
  it returns 0 when there are no digits to read. Handles built from \<open>"42"\<close>, \<open>"-7"\<close> and
  \<open>"abc"\<close> parse to 42, -7 and 0.
\<close>

theorem parse_to_int_decimal:
  assumes "holds st h (Some s)" and "INT_MIN \<le> parse_spec s" and "parse_spec s \<le> INT_MAX"
  shows "parse_to_int h st = Inr (parse_spec s) \<and>
    (digits s = [] \<longrightarrow> parse_to_int h st = Inr 0) \<and>
    and_then (run [From 0 (Some ''42'') 2] init) (parse_to_int 0) = Inr 42 \<and>
    and_then (run [From 0 (Some ''-7'') 2] init) (parse_to_int 0) = Inr (- 7) \<and>
    and_then (run [From 0 (Some ''abc'') 3] init) (parse_to_int 0) = Inr 0"
proof -
  have v: "parse_to_int h st = Inr (parse_spec s)"
    using assms by (simp add: parse_to_int_holds)
  have z: "parse_to_int h st = Inr 0" if "digits s = []"
    using v that by (simp add: parse_spec_def decimal_def)
  have ex: "and_then (run [From 0 (Some t) (length t)] init) (parse_to_int 0) = Inr (parse_spec t)"
    if "INT_MIN \<le> parse_spec t" "parse_spec t \<le> INT_MAX" for t
  proof -
    obtain st' where "run [From 0 (Some t) (length t)] init = Inr st'"
      and "holds st' 0 (Some t)"
      using from_init_holds [of "length t" t 0] by auto
    then show ?thesis
      using that by (simp add: and_then_def parse_to_int_holds)
  qed
  have "and_then (run [From 0 (Some ''42'') 2] init) (parse_to_int 0) = Inr 42"
    using ex [of "''42''"] by (simp add: parse_spec_eval INT_MIN_def INT_MAX_def numeral_2_eq_2)
  moreover have "and_then (run [From 0 (Some ''-7'') 2] init) (parse_to_int 0) = Inr (- 7)"
    using ex [of "''-7''"] by (simp add: parse_spec_eval INT_MIN_def INT_MAX_def numeral_2_eq_2)
  moreover have "and_then (run [From 0 (Some ''abc'') 3] init) (parse_to_int 0) = Inr 0"
    using ex [of "''abc''"] by (simp add: parse_spec_eval INT_MIN_def INT_MAX_def numeral_3_eq_3)
  ultimately show ?thesis
    using v z by blast
qed

theorem parse_to_int_decimal_witness:
  "\<exists>st. run [From 5 (Some '' -12ab'') 6] init = Inr st \<and> holds st 5 (Some '' -12ab'') \<and>
     parse_spec '' -12ab'' = - 12 \<and> parse_to_int 5 st = Inr (- 12)"
proof -
  obtain st where r: "run [From 5 (Some '' -12ab'') 6] init = Inr st"
    and h: "holds st 5 (Some '' -12ab'')"
    using from_init_holds [of 6 "'' -12ab''" 5] by auto
  have lo: "INT_MIN \<le> parse_spec '' -12ab''" and hi: "parse_spec '' -12ab'' \<le> INT_MAX"
    by (simp_all add: parse_spec_eval INT_MIN_def INT_MAX_def)
  from parse_to_int_decimal [OF h lo hi] r h show ?thesis
    by (intro exI [of _ st]) (simp add: parse_spec_eval)
qed

end
